theory Spec2Isabelle
  imports Main "HOL-Library.AList" "HOL-Library.Word"
begin

section \<open>The fusion manager of the shuttle tracker (package api)\<close>

text \<open>
  The embedding follows the Go source of \<^verbatim>\<open>fusionManager\<close>: the goroutine \<^verbatim>\<open>run\<close>
  owns the maps \<^verbatim>\<open>subscriptions\<close>, \<^verbatim>\<open>clients\<close>, \<^verbatim>\<open>tracks\<close> and the counter
  \<^verbatim>\<open>busButtonCount\<close>, and handles one inbox message at a time. Each handler is a
  function on the state; what a handler does to the outside (a call of
  \<^verbatim>\<open>json.Marshal\<close>, a \<^verbatim>\<open>WriteMessage\<close> on a connection, a log line, the snapshot
  sent on the reply channel) is appended to the field \<open>out\<close>.

  A Go map is an association list with distinct keys, looked up with \<open>map_of\<close> and
  assigned with \<open>AList.update\<close>. Go leaves the order of \<^verbatim>\<open>range\<close> over a map open:
  \<^verbatim>\<open>processRemoveClient\<close>, whose result does not depend on the order, ranges in list
  order, and \<^verbatim>\<open>processDebug\<close>, whose result does, ranges in an order that the
  environment gives. A slice of client identifiers is a list. A slice of
  positions is a header (array, length, capacity) into an explicit store of arrays, and
  the \<^verbatim>\<open>*float64\<close> fields of a position are addresses into an explicit store of
  \<^verbatim>\<open>float64\<close> cells, because the snapshot of \<^verbatim>\<open>processDebug\<close> is about what is shared.
\<close>

subsection \<open>Data\<close>

type_synonym time = nat
  \<comment> \<open>an instant of \<^verbatim>\<open>time.Time\<close>; \<open>0\<close> is the zero value \<^verbatim>\<open>time.Time{}\<close>\<close>

type_synonym float64 = "64 word"
  \<comment> \<open>the bits of an IEEE double; the manager stores and forwards them only\<close>

type_synonym connptr = nat
  \<comment> \<open>the address of a \<^verbatim>\<open>websocket.Conn\<close>\<close>

type_synonym bytes = "8 word list"

type_synonym floatptr = nat
  \<comment> \<open>the address of a \<^verbatim>\<open>float64\<close> cell; a nil \<^verbatim>\<open>*float64\<close> is \<open>None\<close>\<close>

record fusionPosition =
  Latitude :: float64
  Longitude :: float64
  Speed :: "floatptr option"
  Heading :: "floatptr option"
  Track :: string
  Time :: time

record fusionBusButton =
  bb_Latitude :: float64
  bb_Longitude :: float64

record fusionClient =
  id_c :: string
  conn :: "connptr option"
  lastMessageTime :: time
  userAgent :: string

text \<open>
  A value of type \<^verbatim>\<open>interface{}\<close> handed to \<^verbatim>\<open>json.Marshal\<close>: a bus button, an
  envelope around another value, or a value of a package outside this one
  (\<^verbatim>\<open>eta.VehicleETA\<close>), of type \<open>'x\<close>.
\<close>

datatype 'x go_value =
  BusButtonV fusionBusButton
  | Envelope (Type: string) (Message: "'x go_value")
  | ForeignV 'x

record 'x serverMessage =
  topic :: string
  msg :: "'x go_value"

text \<open>The dynamic type of \<^verbatim>\<open>clientMessage.msg\<close>, as \<^verbatim>\<open>processMessage\<close> switches on it.\<close>

datatype clientPayload =
  Subscribe string
  | Unsubscribe string
  | Position fusionPosition
  | BusButton fusionBusButton
  | OtherPayload

text \<open>A slice header \<^verbatim>\<open>[]fusionPosition\<close>. The nil slice has length and capacity 0.\<close>

record slice =
  arr :: nat
  len :: nat
  cap :: nat

definition nilSlice :: slice where
  "nilSlice = \<lparr>arr = 0, len = 0, cap = 0\<rparr>"

definition zeroPosition :: fusionPosition where
  "zeroPosition = \<lparr>Latitude = 0, Longitude = 0, Speed = None, Heading = None,
     Track = [], Time = 0\<rparr>"

record fusionManagerDebug =
  clients_d :: "fusionClient list"
  tracks_d :: "slice list"
  busButtonCount_d :: "64 word"

datatype level = Warn | Error

datatype 'x effect =
  Marshal "'x go_value"
  | Write connptr bytes
  | Log level string
  | Reply fusionManagerDebug

datatype panic = NilPointerDereference

text \<open>
  The state: the four fields that \<^verbatim>\<open>run\<close> owns, the store of position arrays
  (\<open>store ! a\<close> is the array at address \<open>a\<close>), the store of \<^verbatim>\<open>float64\<close> cells that
  \<^verbatim>\<open>json.Unmarshal\<close> allocates in the readers for the speed and heading of a position
  (\<open>floats ! a\<close> is the cell at address \<open>a\<close>) and the effects so far.
\<close>

record 'x fusionManager =
  subscriptions :: "(string \<times> string list) list"
  clients :: "(string \<times> fusionClient) list"
  tracks :: "(string \<times> slice) list"
  busButtonCount :: "64 word"
  store :: "fusionPosition list list"
  floats :: "float64 list"
  out :: "'x effect list"

text \<open>
  What a handler reads from outside the state: the result of \<^verbatim>\<open>json.Marshal\<close>
  (\<open>None\<close> is an error), whether a write on a connection returns an error, the
  reading of \<^verbatim>\<open>time.Now()\<close>, how many cells beyond the needed ones the runtime
  gives an array that \<^verbatim>\<open>append\<close> allocates, and the order in which a \<^verbatim>\<open>range\<close> over
  the registry and over the tracks meets the keys: Go leaves the order open, and every
  order of a map is the order by some rank of its keys.
\<close>

record 'x env =
  marshal :: "'x go_value \<Rightarrow> bytes option"
  writeFails :: "connptr \<Rightarrow> bool"
  now :: time
  slack :: nat
  clientOrder :: "string \<Rightarrow> nat"
  trackOrder :: "string \<Rightarrow> nat"

datatype 'x event =
  AddClient fusionClient
  | RemoveClient string
  | ClientMsg string clientPayload
  | ServerMsg "'x serverMessage"
  | DebugRequest
  | ReaderStamp string
  | ReaderNewFloat float64

subsection \<open>Log lines\<close>

definition notSubscribedMsg :: string where
  "notSubscribedMsg = ''client requested unsubscribe from topic it's not subscribed to''"

definition unableToWrite :: string where
  "unableToWrite = ''unable to write''"

definition unableToMarshal :: string where
  "unableToMarshal = ''unable to marshal''"

text \<open>The format string of line 227 without its argument.\<close>

definition unknownMessageType :: string where
  "unknownMessageType = ''unknown message type''"

subsection \<open>Construction\<close>

definition newFusionManager :: "'x fusionManager" where
  "newFusionManager = \<lparr>subscriptions = [], clients = [], tracks = [],
     busButtonCount = 0, store = [], floats = [], out = []\<rparr>"

subsection \<open>Subscriber lists\<close>

text \<open>\<^verbatim>\<open>fm.subscriptions[topic]\<close>: a missing key reads as the nil slice, which ranges as empty.\<close>

definition subsOf :: "'x fusionManager \<Rightarrow> string \<Rightarrow> string list" where
  "subsOf s t = (case map_of (subscriptions s) t of None \<Rightarrow> [] | Some subs \<Rightarrow> subs)"

text \<open>The index at which \<^verbatim>\<open>for i, subbedClient := range subs\<close> first meets the client.\<close>

primrec findSub :: "string \<Rightarrow> string list \<Rightarrow> nat option" where
  "findSub clientID [] = None"
| "findSub clientID (subbedClient # subs) =
     (if subbedClient = clientID then Some 0 else map_option Suc (findSub clientID subs))"

text \<open>\<^verbatim>\<open>append(subs[:i], subs[i+1:]...)\<close>\<close>

definition deleteAt :: "nat \<Rightarrow> 'a list \<Rightarrow> 'a list" where
  "deleteAt i subs = take i subs @ drop (Suc i) subs"

definition handleMsgSubscribe :: "string \<Rightarrow> string \<Rightarrow> 'x fusionManager \<Rightarrow> 'x fusionManager" where
  "handleMsgSubscribe clientID t s =
     (let subs = subsOf s t in
      if clientID \<in> set subs then s
      else s\<lparr>subscriptions := AList.update t (subs @ [clientID]) (subscriptions s)\<rparr>)"

definition handleMsgUnsubscribe :: "string \<Rightarrow> string \<Rightarrow> 'x fusionManager \<Rightarrow> 'x fusionManager" where
  "handleMsgUnsubscribe clientID t s =
     (let subs = subsOf s t in
      case findSub clientID subs of
        Some i \<Rightarrow> s\<lparr>subscriptions := AList.update t (deleteAt i subs) (subscriptions s)\<rparr>
      | None \<Rightarrow> s\<lparr>out := out s @ [Log Warn notSubscribedMsg]\<rparr>)"

subsection \<open>The client registry\<close>

definition processAddClient :: "fusionClient \<Rightarrow> 'x fusionManager \<Rightarrow> 'x fusionManager" where
  "processAddClient client s =
     s\<lparr>clients := AList.update (id_c client) client (clients s)\<rparr>"

text \<open>
  The outer loop of \<^verbatim>\<open>processRemoveClient\<close> over the entries of \<^verbatim>\<open>fm.subscriptions\<close>;
  the inner loop stops at the first match (\<^verbatim>\<open>break\<close>).
\<close>

primrec removeSubs :: "string \<Rightarrow> (string \<times> string list) list \<Rightarrow> 'x fusionManager \<Rightarrow> 'x fusionManager" where
  "removeSubs clientID [] s = s"
| "removeSubs clientID (e # es) s =
     removeSubs clientID es
       (case findSub clientID (snd e) of
          None \<Rightarrow> s
        | Some i \<Rightarrow> s\<lparr>subscriptions := AList.update (fst e) (deleteAt i (snd e)) (subscriptions s)\<rparr>)"

definition processRemoveClient :: "string \<Rightarrow> 'x fusionManager \<Rightarrow> 'x fusionManager" where
  "processRemoveClient clientID s =
     (let s1 = removeSubs clientID (subscriptions s) s in
      s1\<lparr>clients := AList.delete clientID (clients s1)\<rparr>)"

text \<open>
  Line 323 of the reader, \<^verbatim>\<open>client.lastMessageTime = time.Now()\<close>, writes through the
  pointer that the registry holds too. The reader does so from its own goroutine, with
  no synchronisation; here the write is one step in the interleaving with the steps of
  the loop, and what a read that races with the write yields is not modelled.
\<close>

definition readerStamp :: "time \<Rightarrow> string \<Rightarrow> 'x fusionManager \<Rightarrow> 'x fusionManager" where
  "readerStamp t clientID s =
     (case map_of (clients s) clientID of
        None \<Rightarrow> s
      | Some c \<Rightarrow> s\<lparr>clients := AList.update clientID (c\<lparr>lastMessageTime := t\<rparr>) (clients s)\<rparr>)"

text \<open>
  \<^verbatim>\<open>json.Unmarshal\<close> in a reader allocates the cell for a speed or a heading that the
  message gives; the position that the reader then sends holds the address.
\<close>

definition readerNewFloat :: "float64 \<Rightarrow> 'x fusionManager \<Rightarrow> 'x fusionManager" where
  "readerNewFloat v s = s\<lparr>floats := floats s @ [v]\<rparr>"

subsection \<open>Broadcast\<close>

text \<open>
  The loop \<^verbatim>\<open>for _, clientID := range subs\<close> of \<^verbatim>\<open>processServerMessage\<close> and of
  \<^verbatim>\<open>handleMsgBusButton\<close> (the same text twice in the source). \<^verbatim>\<open>fm.clients[clientID]\<close>
  is nil for a missing key, and \<^verbatim>\<open>client.conn\<close> then panics; so does \<^verbatim>\<open>WriteMessage\<close>
  on a nil connection.
\<close>

primrec writeAll :: "'x env \<Rightarrow> bytes \<Rightarrow> string list \<Rightarrow> 'x fusionManager \<Rightarrow> panic + 'x fusionManager" where
  "writeAll w b [] s = Inr s"
| "writeAll w b (clientID # rest) s =
     (case map_of (clients s) clientID of
        None \<Rightarrow> Inl NilPointerDereference
      | Some client \<Rightarrow>
          (case conn client of
             None \<Rightarrow> Inl NilPointerDereference
           | Some c \<Rightarrow>
               writeAll w b rest
                 (s\<lparr>out := out s @ Write c b #
                    (if writeFails w c then [Log Error unableToWrite] else [])\<rparr>)))"

definition processServerMessage :: "'x env \<Rightarrow> 'x serverMessage \<Rightarrow> 'x fusionManager \<Rightarrow> panic + 'x fusionManager" where
  "processServerMessage w sm s =
     (case marshal w (msg sm) of
        None \<Rightarrow> Inr (s\<lparr>out := out s @ [Marshal (msg sm), Log Error unableToMarshal]\<rparr>)
      | Some b \<Rightarrow> writeAll w b (subsOf s (topic sm)) (s\<lparr>out := out s @ [Marshal (msg sm)]\<rparr>))"

definition handleMsgBusButton :: "'x env \<Rightarrow> fusionBusButton \<Rightarrow> 'x fusionManager \<Rightarrow> panic + 'x fusionManager" where
  "handleMsgBusButton w fbb s =
     (let s1 = s\<lparr>busButtonCount := busButtonCount s + 1\<rparr>;
          fme = Envelope ''bus_button'' (BusButtonV fbb)
      in case marshal w fme of
           None \<Rightarrow> Inr (s1\<lparr>out := out s1 @ [Marshal fme, Log Error unableToMarshal]\<rparr>)
         | Some b \<Rightarrow> writeAll w b (subsOf s1 ''bus_button'') (s1\<lparr>out := out s1 @ [Marshal fme]\<rparr>))"

subsection \<open>Tracks\<close>

text \<open>
  The elements of a slice. A Go slice always lies inside its array; in the model this is
  the invariant \<open>storeOk\<close> below, which every state that the loop reaches has.
\<close>

definition elems :: "fusionPosition list list \<Rightarrow> slice \<Rightarrow> fusionPosition list" where
  "elems h sl = take (len sl) (h ! arr sl)"

text \<open>
  \<^verbatim>\<open>append(sl, x)\<close>: into the spare capacity of the slice's own array when there is
  some, else into a new array, which holds the old elements, \<open>x\<close> and \<open>k\<close> zeroed
  cells (Go fixes only that the new array is large enough).
\<close>

definition appendPos :: "nat \<Rightarrow> fusionPosition list list \<Rightarrow> slice \<Rightarrow> fusionPosition
    \<Rightarrow> fusionPosition list list \<times> slice" where
  "appendPos k h sl x =
     (if len sl < cap sl
      then (h[arr sl := (h ! arr sl)[len sl := x]], sl\<lparr>len := len sl + 1\<rparr>)
      else (h @ [elems h sl @ x # replicate k zeroPosition],
            \<lparr>arr = length h, len = len sl + 1, cap = len sl + 1 + k\<rparr>))"

definition trackSlice :: "'x fusionManager \<Rightarrow> string \<Rightarrow> slice" where
  "trackSlice s t = (case map_of (tracks s) t of None \<Rightarrow> nilSlice | Some sl \<Rightarrow> sl)"

definition handleMsgPosition :: "'x env \<Rightarrow> fusionPosition \<Rightarrow> 'x fusionManager \<Rightarrow> 'x fusionManager" where
  "handleMsgPosition w fp0 s =
     (let fp = fp0\<lparr>Time := now w\<rparr>;
          (h, sl) = appendPos (slack w) (store s) (trackSlice s (Track fp)) fp
      in s\<lparr>tracks := AList.update (Track fp) sl (tracks s), store := h\<rparr>)"

text \<open>The positions of a track, read through its slice.\<close>

definition trackOf :: "'x fusionManager \<Rightarrow> string \<Rightarrow> fusionPosition list" where
  "trackOf s t = elems (store s) (trackSlice s t)"

subsection \<open>Dispatch\<close>

definition processMessage :: "'x env \<Rightarrow> string \<Rightarrow> clientPayload \<Rightarrow> 'x fusionManager \<Rightarrow> panic + 'x fusionManager" where
  "processMessage w clientID m s =
     (case m of
        Subscribe t \<Rightarrow> Inr (handleMsgSubscribe clientID t s)
      | Unsubscribe t \<Rightarrow> Inr (handleMsgUnsubscribe clientID t s)
      | Position fp \<Rightarrow> Inr (handleMsgPosition w fp s)
      | BusButton fbb \<Rightarrow> handleMsgBusButton w fbb s
      | OtherPayload \<Rightarrow> Inr (s\<lparr>out := out s @ [Log Error unknownMessageType]\<rparr>))"

subsection \<open>Snapshot\<close>

text \<open>\<^verbatim>\<open>make([]fusionPosition, n)\<close>: a new array of \<open>n\<close> zeroed cells.\<close>

definition makeSlice :: "nat \<Rightarrow> fusionPosition list list \<Rightarrow> fusionPosition list list \<times> slice" where
  "makeSlice n h = (h @ [replicate n zeroPosition], \<lparr>arr = length h, len = n, cap = n\<rparr>)"

text \<open>
  \<^verbatim>\<open>copy(dst, src)\<close> writes the first \<open>min (len dst) (len src)\<close> cells of \<open>dst\<close>. Each
  position is copied field by field, so a copied \<^verbatim>\<open>Speed\<close> or \<^verbatim>\<open>Heading\<close> is the same
  address as in the source.
\<close>

definition copySlice :: "fusionPosition list list \<Rightarrow> slice \<Rightarrow> slice \<Rightarrow> fusionPosition list list" where
  "copySlice h dst src =
     (let n = min (len dst) (len src) in
      h[arr dst := take n (h ! arr src) @ drop n (h ! arr dst)])"

text \<open>The second loop of \<^verbatim>\<open>processDebug\<close>, over the values of \<^verbatim>\<open>fm.tracks\<close>.\<close>

primrec copyTracks :: "slice list \<Rightarrow> fusionPosition list list \<Rightarrow> slice list
    \<Rightarrow> fusionPosition list list \<times> slice list" where
  "copyTracks [] h acc = (h, acc)"
| "copyTracks (v # vs) h acc =
     (let (h1, newTrack) = makeSlice (len v) h;
          h2 = copySlice h1 newTrack v
      in copyTracks vs h2 (acc @ [newTrack]))"

text \<open>The first loop: the client without its connection.\<close>

definition newClient :: "fusionClient \<Rightarrow> fusionClient" where
  "newClient v = \<lparr>id_c = id_c v, conn = None, lastMessageTime = lastMessageTime v,
     userAgent = userAgent v\<rparr>"

text \<open>
  The entries of the registry and of the tracks in the order in which the \<^verbatim>\<open>range\<close>
  loops of \<^verbatim>\<open>processDebug\<close> meet them.
\<close>

definition rangeClients :: "'x env \<Rightarrow> 'x fusionManager \<Rightarrow> (string \<times> fusionClient) list" where
  "rangeClients w s = sort_key (\<lambda>e. clientOrder w (fst e)) (clients s)"

definition rangeTracks :: "'x env \<Rightarrow> 'x fusionManager \<Rightarrow> (string \<times> slice) list" where
  "rangeTracks w s = sort_key (\<lambda>e. trackOrder w (fst e)) (tracks s)"

text \<open>
  The part of \<^verbatim>\<open>processDebug\<close> that assembles the data: the store after the copies and
  the snapshot. \<^verbatim>\<open>copy\<close> copies the positions as they are, with their \<^verbatim>\<open>*float64\<close>
  fields.
\<close>

definition assembleDebug :: "'x env \<Rightarrow> 'x fusionManager \<Rightarrow> fusionPosition list list \<times> fusionManagerDebug" where
  "assembleDebug w s =
     (let (h, ts) = copyTracks (map snd (rangeTracks w s)) (store s) []
      in (h, \<lparr>clients_d = map (\<lambda>e. newClient (snd e)) (rangeClients w s),
               tracks_d = ts,
               busButtonCount_d = busButtonCount s\<rparr>))"

text \<open>The snapshot is sent on the reply channel.\<close>

definition processDebug :: "'x env \<Rightarrow> 'x fusionManager \<Rightarrow> 'x fusionManager" where
  "processDebug w s =
     (let (h, debug) = assembleDebug w s
      in s\<lparr>store := h, out := out s @ [Reply debug]\<rparr>)"

text \<open>
  The \<^verbatim>\<open>position\<close> case of the reader \<^verbatim>\<open>handleClient\<close> (lines 347 to 355); \<open>decoded\<close> is
  what \<^verbatim>\<open>json.Unmarshal\<close> made of the message (\<open>None\<close> is an error, and the time of
  a decoded position is whatever the client sent), \<open>t\<close> the reading of \<^verbatim>\<open>time.Now()\<close>.
  The result is the log line or the message sent to the inbox.
\<close>

definition unableToDecodePosition :: string where
  "unableToDecodePosition = ''unable to decode fusionPosition''"

definition handleClientPosition :: "time \<Rightarrow> string \<Rightarrow> fusionPosition option \<Rightarrow> 'x effect + 'x event" where
  "handleClientPosition t clientID decoded =
     (case decoded of
        None \<Rightarrow> Inl (Log Error unableToDecodePosition)
      | Some fp \<Rightarrow> Inr (ClientMsg clientID (Position (fp\<lparr>Time := t\<rparr>))))"

subsection \<open>The loop of \<^verbatim>\<open>run\<close>\<close>

definition step :: "'x env \<Rightarrow> 'x event \<Rightarrow> 'x fusionManager \<Rightarrow> panic + 'x fusionManager" where
  "step w e s =
     (case e of
        AddClient c \<Rightarrow> Inr (processAddClient c s)
      | RemoveClient clientID \<Rightarrow> Inr (processRemoveClient clientID s)
      | ClientMsg clientID m \<Rightarrow> processMessage w clientID m s
      | ServerMsg sm \<Rightarrow> processServerMessage w sm s
      | DebugRequest \<Rightarrow> Inr (processDebug w s)
      | ReaderStamp clientID \<Rightarrow> Inr (readerStamp (now w) clientID s)
      | ReaderNewFloat v \<Rightarrow> Inr (readerNewFloat v s))"

fun run :: "('x env \<times> 'x event) list \<Rightarrow> 'x fusionManager \<Rightarrow> panic + 'x fusionManager" where
  "run [] s = Inr s"
| "run (we # rest) s =
     (case step (fst we) (snd we) s of
        Inl p \<Rightarrow> Inl p
      | Inr s' \<Rightarrow> run rest s')"

subsection \<open>Invariants of the state\<close>

text \<open>No subscriber list holds a client identifier twice.\<close>

definition subsDistinct :: "'x fusionManager \<Rightarrow> bool" where
  "subsDistinct s \<longleftrightarrow> (\<forall>e \<in> set (subscriptions s). distinct (snd e))"

text \<open>Every subscribed identifier is a key of the registry.\<close>

definition subsRegistered :: "'x fusionManager \<Rightarrow> bool" where
  "subsRegistered s \<longleftrightarrow>
     (\<forall>e \<in> set (subscriptions s). \<forall>c \<in> set (snd e). c \<in> set (map fst (clients s)))"

text \<open>
  Every registered client has a connection (\<^verbatim>\<open>webSocketHandler\<close> registers a client
  only after \<^verbatim>\<open>Upgrade\<close> succeeded), and no two clients share one.
\<close>

definition connsOk :: "'x fusionManager \<Rightarrow> bool" where
  "connsOk s \<longleftrightarrow> (\<forall>e \<in> set (clients s). conn (snd e) \<noteq> None)
     \<and> distinct (map (\<lambda>e. conn (snd e)) (clients s))"

text \<open>
  Every track's slice lies inside an allocated array of the store, and no two tracks
  share an array.
\<close>

definition storeOk :: "'x fusionManager \<Rightarrow> bool" where
  "storeOk s \<longleftrightarrow> distinct (map fst (tracks s))
     \<and> distinct (map (\<lambda>e. arr (snd e)) (tracks s))
     \<and> (\<forall>e \<in> set (tracks s). arr (snd e) < length (store s) \<and> len (snd e) \<le> cap (snd e)
           \<and> cap (snd e) \<le> length (store s ! arr (snd e)))"

text \<open>
  What the rest of the program sends to the inbox. A reader runs from
  \<^verbatim>\<open>processAddClient\<close> (line 184) until it has sent its \<^verbatim>\<open>removeClient\<close> (line 372), so
  a client message carries the identifier of a registered client; \<^verbatim>\<open>webSocketHandler\<close>
  registers a new identifier with a new, non-nil connection.
\<close>

definition admissible :: "'x fusionManager \<Rightarrow> 'x event \<Rightarrow> bool" where
  "admissible s e =
     (case e of
        AddClient c \<Rightarrow> conn c \<noteq> None \<and> id_c c \<notin> set (map fst (clients s))
          \<and> conn c \<notin> set (map (\<lambda>e. conn (snd e)) (clients s))
      | ClientMsg clientID m \<Rightarrow> clientID \<in> set (map fst (clients s))
      | _ \<Rightarrow> True)"

fun admissibleRun :: "('x env \<times> 'x event) list \<Rightarrow> 'x fusionManager \<Rightarrow> bool" where
  "admissibleRun [] s = True"
| "admissibleRun (we # rest) s =
     (admissible s (snd we) \<and>
      (case step (fst we) (snd we) s of
         Inl p \<Rightarrow> True
       | Inr s' \<Rightarrow> admissibleRun rest s'))"

subsection \<open>Reading the effects\<close>

text \<open>The connection of a registered client.\<close>

definition connOf :: "'x fusionManager \<Rightarrow> string \<Rightarrow> connptr option" where
  "connOf s clientID = (case map_of (clients s) clientID of None \<Rightarrow> None | Some c \<Rightarrow> conn c)"

text \<open>The values handed to \<^verbatim>\<open>json.Marshal\<close>, in order.\<close>

fun marshalled :: "'x effect list \<Rightarrow> 'x go_value list" where
  "marshalled [] = []"
| "marshalled (Marshal v # es) = v # marshalled es"
| "marshalled (e # es) = marshalled es"

text \<open>The messages written on one connection, in order.\<close>

fun writesOn :: "connptr \<Rightarrow> 'x effect list \<Rightarrow> bytes list" where
  "writesOn c [] = []"
| "writesOn c (Write c' b # es) = (if c' = c then b # writesOn c es else writesOn c es)"
| "writesOn c (e # es) = writesOn c es"

text \<open>The connections on which a write was attempted, in order.\<close>

fun writeAttempts :: "'x effect list \<Rightarrow> connptr list" where
  "writeAttempts [] = []"
| "writeAttempts (Write c b # es) = c # writeAttempts es"
| "writeAttempts (e # es) = writeAttempts es"

text \<open>The effects that a handler added to those of the state it started from.\<close>

definition newEffects :: "'x fusionManager \<Rightarrow> 'x fusionManager \<Rightarrow> 'x effect list" where
  "newEffects s s' = drop (length (out s)) (out s')"

subsection \<open>Removal as the specification words it\<close>

text \<open>
  Swap-delete, as the specification names the removal: the last element is moved into
  the freed position and the list is cut by one.
\<close>

definition swapDelete :: "nat \<Rightarrow> 'a list \<Rightarrow> 'a list" where
  "swapDelete i xs = butlast (xs[i := last xs])"

text \<open>What one pass of the write loop adds to the effects.\<close>

definition writeEffects :: "'x env \<Rightarrow> bytes \<Rightarrow> connptr \<Rightarrow> 'x effect list" where
  "writeEffects w b k = Write k b # (if writeFails w k then [Log Error unableToWrite] else [])"

text \<open>The invariant of the registry and the subscriber lists together.\<close>

definition registryInv :: "'x fusionManager \<Rightarrow> bool" where
  "registryInv s \<longleftrightarrow> distinct (map fst (subscriptions s)) \<and> distinct (map fst (clients s))
     \<and> subsDistinct s \<and> subsRegistered s \<and> connsOk s"

text \<open>The values that the events of a run hand to \<^verbatim>\<open>json.Marshal\<close>.\<close>

fun broadcastOf :: "'x event \<Rightarrow> 'x go_value list" where
  "broadcastOf (ClientMsg c (BusButton fbb)) = [Envelope ''bus_button'' (BusButtonV fbb)]"
| "broadcastOf (ServerMsg sm) = [msg sm]"
| "broadcastOf e = []"

text \<open>The bus button events of a run.\<close>

fun busButtonsOf :: "'x event \<Rightarrow> fusionBusButton list" where
  "busButtonsOf (ClientMsg c (BusButton fbb)) = [fbb]"
| "busButtonsOf e = []"

subsection \<open>Reading the store\<close>

text \<open>The arrays that the tracks of the state use.\<close>

definition liveArrs :: "'x fusionManager \<Rightarrow> nat set" where
  "liveArrs s = set (map (\<lambda>e. arr (snd e)) (tracks s))"

text \<open>The slices that the snapshot gets when the copies start at address \<open>a\<close>.\<close>

primrec snapSlices :: "nat \<Rightarrow> slice list \<Rightarrow> slice list" where
  "snapSlices a [] = []"
| "snapSlices a (v # vs) = \<lparr>arr = a, len = len v, cap = len v\<rparr> # snapSlices (Suc a) vs"

text \<open>The snapshot that \<^verbatim>\<open>processDebug\<close> sends in state \<open>s\<close> and environment \<open>w\<close>.\<close>

definition snapshotOf :: "'x env \<Rightarrow> 'x fusionManager \<Rightarrow> fusionManagerDebug" where
  "snapshotOf w s = snd (assembleDebug w s)"

text \<open>The position that an event of a run appends to track \<open>t\<close>, with its time stamp.\<close>

fun stampedFor :: "string \<Rightarrow> 'x env \<times> 'x event \<Rightarrow> fusionPosition list" where
  "stampedFor t (w, ClientMsg c (Position fp)) = (if Track fp = t then [fp\<lparr>Time := now w\<rparr>] else [])"
| "stampedFor t (w, e) = []"









subsection \<open>Disjointness as the specification words it\<close>


text \<open>
  A run of position events, each with the environment it is handled in and the client
  it comes from, and the positions as they are stored.
\<close>

definition positionEvents :: "('x env \<times> string \<times> fusionPosition) list \<Rightarrow> ('x env \<times> 'x event) list" where
  "positionEvents xs = map (\<lambda>x. (fst x, ClientMsg (fst (snd x)) (Position (snd (snd x))))) xs"

definition stamped :: "('x env \<times> string \<times> fusionPosition) list \<Rightarrow> fusionPosition list" where
  "stamped xs = map (\<lambda>x. (snd (snd x))\<lparr>Time := now (fst x)\<rparr>) xs"


subsection \<open>Sample inputs\<close>

definition sampleEnv :: "nat env" where
  "sampleEnv = \<lparr>marshal = (\<lambda>v. Some [1, 2]), writeFails = (\<lambda>c. c = 11), now = 1000, slack = 1,
     clientOrder = (\<lambda>k. 0), trackOrder = (\<lambda>k. 0)\<rparr>"

definition failingEnv :: "nat env" where
  "failingEnv = \<lparr>marshal = (\<lambda>v. None), writeFails = (\<lambda>c. False), now = 1000, slack = 0,
     clientOrder = (\<lambda>k. 0), trackOrder = (\<lambda>k. 0)\<rparr>"

definition clientA :: fusionClient where
  "clientA = \<lparr>id_c = ''a'', conn = Some 10, lastMessageTime = 1, userAgent = ''ua''\<rparr>"

definition clientB :: fusionClient where
  "clientB = \<lparr>id_c = ''b'', conn = Some 11, lastMessageTime = 2, userAgent = ''ub''\<rparr>"

definition clientC :: fusionClient where
  "clientC = \<lparr>id_c = ''c'', conn = Some 12, lastMessageTime = 3, userAgent = ''uc''\<rparr>"

definition sampleButton :: fusionBusButton where
  "sampleButton = \<lparr>bb_Latitude = 42, bb_Longitude = 73\<rparr>"

definition samplePosition :: fusionPosition where
  "samplePosition = \<lparr>Latitude = 1, Longitude = 2, Speed = Some 0, Heading = None,
     Track = ''t1'', Time = 99\<rparr>"

definition laterEnv :: "nat env" where
  "laterEnv = \<lparr>marshal = (\<lambda>v. Some [1, 2]), writeFails = (\<lambda>c. False), now = 2000, slack = 0,
     clientOrder = (\<lambda>k. if k = ''b'' then 0 else 1), trackOrder = (\<lambda>k. 0)\<rparr>"

definition sampleState :: "nat fusionManager" where
  "sampleState = \<lparr>subscriptions = [(''eta'', [''a'', ''b'', ''c'']), (''bus_button'', [''b''])],
     clients = [(''a'', clientA), (''b'', clientB), (''c'', clientC)],
     tracks = [], busButtonCount = 0, store = [], floats = [], out = []\<rparr>"



section \<open>Properties\<close>

subsection \<open>Subscriber lists\<close>

lemma findSub_None_iff: "findSub c xs = None \<longleftrightarrow> c \<notin> set xs"
  by (induction xs) auto

lemma findSub_remove1: "findSub c xs = Some i \<Longrightarrow> deleteAt i xs = remove1 c xs"
proof (induction xs arbitrary: i)
  case Nil
  then show ?case by simp
next
  case (Cons x xs)
  then show ?case by (auto simp: deleteAt_def split: if_splits)
qed

lemma subsOf_update:
  "subsOf (s\<lparr>subscriptions := AList.update t v (subscriptions s)\<rparr>) t' = (if t' = t then v else subsOf s t')"
  by (simp add: subsOf_def update_conv')

lemma set_update_subset: "set (AList.update k v al) \<subseteq> insert (k, v) (set al)"
  by (induction al) auto

lemma subsDistinct_subsOf: "subsDistinct s \<Longrightarrow> distinct (subsOf s t)"
  by (auto simp: subsDistinct_def subsOf_def split: option.splits dest!: map_of_SomeD)

lemma subsDistinct_update:
  assumes "subsDistinct s" "distinct v"
  shows "subsDistinct (s\<lparr>subscriptions := AList.update t v (subscriptions s)\<rparr>)"
  using assms set_update_subset[of t v "subscriptions s"]
  by (auto simp: subsDistinct_def)

lemma handleMsgSubscribe_distinct: "subsDistinct s \<Longrightarrow> subsDistinct (handleMsgSubscribe c t s)"
proof -
  assume a: "subsDistinct s"
  show ?thesis
  proof (cases "c \<in> set (subsOf s t)")
    case True
    with a show ?thesis by (simp add: handleMsgSubscribe_def)
  next
    case False
    with subsDistinct_subsOf[OF a, of t] have "distinct (subsOf s t @ [c])" by simp
    from subsDistinct_update[OF a this, of t] False show ?thesis
      by (simp add: handleMsgSubscribe_def)
  qed
qed

lemma handleMsgUnsubscribe_eq:
  "handleMsgUnsubscribe c t s =
     (if c \<in> set (subsOf s t)
      then s\<lparr>subscriptions := AList.update t (remove1 c (subsOf s t)) (subscriptions s)\<rparr>
      else s\<lparr>out := out s @ [Log Warn notSubscribedMsg]\<rparr>)"
proof (cases "findSub c (subsOf s t)")
  case None
  then have "c \<notin> set (subsOf s t)" by (simp add: findSub_None_iff)
  with None show ?thesis by (simp add: handleMsgUnsubscribe_def)
next
  case (Some i)
  then have "c \<in> set (subsOf s t)" using findSub_None_iff[of c "subsOf s t"] by auto
  with Some show ?thesis by (simp add: handleMsgUnsubscribe_def findSub_remove1)
qed

lemma handleMsgUnsubscribe_distinct: "subsDistinct s \<Longrightarrow> subsDistinct (handleMsgUnsubscribe c t s)"
proof -
  assume a: "subsDistinct s"
  show ?thesis
  proof (cases "c \<in> set (subsOf s t)")
    case False
    with a show ?thesis by (simp add: handleMsgUnsubscribe_eq subsDistinct_def)
  next
    case True
    from subsDistinct_subsOf[OF a, of t] have "distinct (remove1 c (subsOf s t))" by simp
    from subsDistinct_update[OF a this, of t] True show ?thesis
      by (simp add: handleMsgUnsubscribe_eq)
  qed
qed

subsection \<open>Frames of the handlers\<close>

lemma removeSubs_distinct:
  "subsDistinct s \<Longrightarrow> \<forall>e \<in> set es. distinct (snd e) \<Longrightarrow> subsDistinct (removeSubs c es s)"
proof (induction es arbitrary: s)
  case Nil
  then show ?case by simp
next
  case (Cons e es)
  show ?case
  proof (cases "findSub c (snd e)")
    case None
    with Cons show ?thesis by simp
  next
    case (Some i)
    have "distinct (deleteAt i (snd e))"
      using Cons.prems(2) Some by (simp add: findSub_remove1)
    from subsDistinct_update[OF Cons.prems(1) this] Cons.prems(2) Some Cons.IH
    show ?thesis by simp
  qed
qed

lemma removeSubs_others:
  "clients (removeSubs c es s) = clients s \<and> tracks (removeSubs c es s) = tracks s
   \<and> busButtonCount (removeSubs c es s) = busButtonCount s
   \<and> store (removeSubs c es s) = store s \<and> out (removeSubs c es s) = out s"
  by (induction es arbitrary: s) (simp_all split: option.splits)

lemma processRemoveClient_distinct: "subsDistinct s \<Longrightarrow> subsDistinct (processRemoveClient c s)"
proof -
  assume a: "subsDistinct s"
  then have "\<forall>e \<in> set (subscriptions s). distinct (snd e)" by (simp add: subsDistinct_def)
  from removeSubs_distinct[OF a this, of c] show ?thesis
    by (simp add: processRemoveClient_def Let_def subsDistinct_def)
qed

lemma writeAll_frame:
  fixes s :: "'a fusionManager"
  shows "writeAll w b cs s = Inr s' \<Longrightarrow> \<exists>effs. s' = s\<lparr>out := out s @ effs\<rparr>"
proof (induction cs arbitrary: s)
  case Nil
  then have "s' = s\<lparr>out := out s @ []\<rparr>" by simp
  then show ?case by (rule exI)
next
  case (Cons c cs)
  from Cons.prems obtain cl where cl: "map_of (clients s) c = Some cl"
    by (cases "map_of (clients s) c") simp_all
  from Cons.prems cl obtain k where k: "conn cl = Some k"
    by (cases "conn cl") simp_all
  define e :: "'a effect list"
    where "e = Write k b # (if writeFails w k then [Log Error unableToWrite] else [])"
  from Cons.prems cl k have "writeAll w b cs (s\<lparr>out := out s @ e\<rparr>) = Inr s'"
    by (simp add: e_def)
  from Cons.IH[OF this] obtain effs where "s' = s\<lparr>out := out s @ e\<rparr>\<lparr>out := out (s\<lparr>out := out s @ e\<rparr>) @ effs\<rparr>"
    by (rule exE)
  then have "s' = s\<lparr>out := out s @ (e @ effs)\<rparr>" by simp
  then show ?case by (rule exI)
qed

lemma processServerMessage_frame:
  "processServerMessage w sm s = Inr s' \<Longrightarrow> \<exists>effs. s' = s\<lparr>out := out s @ effs\<rparr>"
proof (cases "marshal w (msg sm)")
  case None
  assume "processServerMessage w sm s = Inr s'"
  with None have "s' = s\<lparr>out := out s @ [Marshal (msg sm), Log Error unableToMarshal]\<rparr>"
    by (simp add: processServerMessage_def)
  then show ?thesis by (rule exI)
next
  case (Some b)
  assume "processServerMessage w sm s = Inr s'"
  with Some have "writeAll w b (subsOf s (topic sm)) (s\<lparr>out := out s @ [Marshal (msg sm)]\<rparr>) = Inr s'"
    by (simp add: processServerMessage_def)
  from writeAll_frame[OF this] obtain effs where
    "s' = s\<lparr>out := out s @ [Marshal (msg sm)]\<rparr>\<lparr>out := out (s\<lparr>out := out s @ [Marshal (msg sm)]\<rparr>) @ effs\<rparr>"
    by (rule exE)
  then have "s' = s\<lparr>out := out s @ (Marshal (msg sm) # effs)\<rparr>" by simp
  then show ?thesis by (rule exI)
qed

lemma handleMsgBusButton_eq:
  "handleMsgBusButton w fbb s =
     processServerMessage w \<lparr>topic = ''bus_button'', msg = Envelope ''bus_button'' (BusButtonV fbb)\<rparr>
       (s\<lparr>busButtonCount := busButtonCount s + 1\<rparr>)"
  by (simp add: handleMsgBusButton_def processServerMessage_def Let_def split: option.splits)

lemma handleMsgBusButton_frame:
  "handleMsgBusButton w fbb s = Inr s' \<Longrightarrow>
     \<exists>effs. s' = s\<lparr>busButtonCount := busButtonCount s + 1, out := out s @ effs\<rparr>"
proof -
  assume "handleMsgBusButton w fbb s = Inr s'"
  then have "processServerMessage w \<lparr>topic = ''bus_button'', msg = Envelope ''bus_button'' (BusButtonV fbb)\<rparr>
       (s\<lparr>busButtonCount := busButtonCount s + 1\<rparr>) = Inr s'" by (simp add: handleMsgBusButton_eq)
  from processServerMessage_frame[OF this] obtain effs where
    "s' = s\<lparr>busButtonCount := busButtonCount s + 1\<rparr>\<lparr>out := out (s\<lparr>busButtonCount := busButtonCount s + 1\<rparr>) @ effs\<rparr>"
    by (rule exE)
  then have "s' = s\<lparr>busButtonCount := busButtonCount s + 1, out := out s @ effs\<rparr>" by simp
  then show ?thesis by (rule exI)
qed

subsection \<open>The loop and its invariants\<close>

lemma step_elim [consumes 1, case_names Add Remove Sub Unsub Pos Button Other Server Debug Stamp NewFloat]:
  fixes s :: "'a fusionManager"
  assumes "step w e s = Inr s'"
  obtains
    c where "e = AddClient c" "s' = processAddClient c s"
  | c where "e = RemoveClient c" "s' = processRemoveClient c s"
  | c t where "e = ClientMsg c (Subscribe t)" "s' = handleMsgSubscribe c t s"
  | c t where "e = ClientMsg c (Unsubscribe t)" "s' = handleMsgUnsubscribe c t s"
  | c fp where "e = ClientMsg c (Position fp)" "s' = handleMsgPosition w fp s"
  | c fbb effs where "e = ClientMsg c (BusButton fbb)" "handleMsgBusButton w fbb s = Inr s'"
      "s' = s\<lparr>busButtonCount := busButtonCount s + 1, out := out s @ effs\<rparr>"
  | c where "e = ClientMsg c OtherPayload" "s' = s\<lparr>out := out s @ [Log Error unknownMessageType]\<rparr>"
  | sm effs where "e = ServerMsg sm" "processServerMessage w sm s = Inr s'" "s' = s\<lparr>out := out s @ effs\<rparr>"
  | "e = DebugRequest" "s' = processDebug w s"
  | c where "e = ReaderStamp c" "s' = readerStamp (now w) c s"
  | v where "e = ReaderNewFloat v" "s' = readerNewFloat v s"
proof (cases e)
  case (AddClient c)
  with assms that(1) show ?thesis by (simp add: step_def)
next
  case (RemoveClient c)
  with assms that(2) show ?thesis by (simp add: step_def)
next
  case (ClientMsg c m)
  show ?thesis
  proof (cases m)
    case (Subscribe t)
    with ClientMsg assms that(3) show ?thesis by (simp add: step_def processMessage_def)
  next
    case (Unsubscribe t)
    with ClientMsg assms that(4) show ?thesis by (simp add: step_def processMessage_def)
  next
    case (Position fp)
    with ClientMsg assms that(5) show ?thesis by (simp add: step_def processMessage_def)
  next
    case (BusButton fbb)
    with ClientMsg assms have h: "handleMsgBusButton w fbb s = Inr s'"
      by (simp add: step_def processMessage_def)
    from handleMsgBusButton_frame[OF h] obtain effs where
      "s' = s\<lparr>busButtonCount := busButtonCount s + 1, out := out s @ effs\<rparr>" by (rule exE)
    with ClientMsg BusButton h that(6) show ?thesis by blast
  next
    case OtherPayload
    with ClientMsg assms that(7) show ?thesis by (simp add: step_def processMessage_def)
  qed
next
  case (ServerMsg sm)
  with assms have h: "processServerMessage w sm s = Inr s'" by (simp add: step_def)
  from processServerMessage_frame[OF h] obtain effs where "s' = s\<lparr>out := out s @ effs\<rparr>"
    by (rule exE)
  with ServerMsg h that(8) show ?thesis by blast
next
  case DebugRequest
  with assms that(9) show ?thesis by (simp add: step_def)
next
  case (ReaderStamp c)
  with assms that(10) show ?thesis by (simp add: step_def)
next
  case (ReaderNewFloat v)
  with assms that(11) show ?thesis by (simp add: step_def)
qed

lemma run_induct [consumes 2, case_names step]:
  assumes "run evs s = Inr s'" and "P s"
    and "\<And>w e s1 s2. P s1 \<Longrightarrow> step w e s1 = Inr s2 \<Longrightarrow> P s2"
  shows "P s'"
  using assms(1,2)
proof (induction evs arbitrary: s)
  case Nil
  then show ?case by simp
next
  case (Cons we evs)
  from Cons.prems(1) obtain s1 where s1: "step (fst we) (snd we) s = Inr s1" "run evs s1 = Inr s'"
    by (cases "step (fst we) (snd we) s") simp_all
  from assms(3)[OF Cons.prems(2) s1(1)] have "P s1" .
  from Cons.IH[OF s1(2) this] show ?case .
qed

lemma handleMsgPosition_subs [simp]: "subscriptions (handleMsgPosition w fp s) = subscriptions s"
  by (simp add: handleMsgPosition_def Let_def split: prod.splits)

lemma processDebug_subs [simp]: "subscriptions (processDebug w s) = subscriptions s"
  by (simp add: processDebug_def assembleDebug_def Let_def split: prod.splits)

lemma readerStamp_subs [simp]: "subscriptions (readerStamp t c s) = subscriptions s"
  by (simp add: readerStamp_def split: option.splits)

lemma step_subsDistinct:
  assumes "subsDistinct s" "step w e s = Inr s'"
  shows "subsDistinct s'"
  using assms(2)
proof (cases rule: step_elim)
  case (Add c)
  with assms(1) show ?thesis by (simp add: processAddClient_def subsDistinct_def)
next
  case (Remove c)
  with assms(1) show ?thesis by (simp add: processRemoveClient_distinct)
next
  case (Sub c t)
  with assms(1) show ?thesis by (simp add: handleMsgSubscribe_distinct)
next
  case (Unsub c t)
  with assms(1) show ?thesis by (simp add: handleMsgUnsubscribe_distinct)
next
  case (Pos c fp)
  with assms(1) show ?thesis by (simp add: subsDistinct_def)
next
  case (Button c fbb effs)
  with assms(1) show ?thesis by (simp add: subsDistinct_def)
next
  case (Other c)
  with assms(1) show ?thesis by (simp add: subsDistinct_def)
next
  case (Server sm effs)
  with assms(1) show ?thesis by (simp add: subsDistinct_def)
next
  case Debug
  with assms(1) show ?thesis by (simp add: subsDistinct_def)
next
  case (Stamp c)
  with assms(1) show ?thesis by (simp add: subsDistinct_def)
next
  case (NewFloat v)
  with assms(1) show ?thesis by (simp add: subsDistinct_def readerNewFloat_def)
qed

lemma newFusionManager_subsDistinct: "subsDistinct newFusionManager"
  by (simp add: subsDistinct_def newFusionManager_def)

lemma count_list_distinct: "distinct xs \<Longrightarrow> c \<in> set xs \<Longrightarrow> count_list xs c = 1"
  by (induction xs) auto

lemma handleMsgSubscribe_subsOf:
  "subsOf (handleMsgSubscribe c t s) t' =
     (if t' = t \<and> c \<notin> set (subsOf s t) then subsOf s t @ [c] else subsOf s t')"
  by (simp add: handleMsgSubscribe_def Let_def subsOf_update)

lemma handleMsgSubscribe_idem:
  "handleMsgSubscribe c t (handleMsgSubscribe c t s) = handleMsgSubscribe c t s"
proof -
  have "c \<in> set (subsOf (handleMsgSubscribe c t s) t)"
    by (simp add: handleMsgSubscribe_subsOf)
  then show ?thesis
    by (simp add: handleMsgSubscribe_def[of c t "handleMsgSubscribe c t s"])
qed

subsection \<open>Unsubscribe and the at-most-once invariant\<close>

text \<open>
  C7. Unsubscribing a client that is not in the topic's list changes no field of the
  manager's state (the handler only logs a warning) and the step returns normally; when
  the client is in the list, the handler removes that one entry, keeps the other entries
  in order and leaves every other topic alone.
\<close>

theorem unsubscribe_absent_or_present:
  "(clientID \<notin> set (subsOf s t) \<longrightarrow>
      handleMsgUnsubscribe clientID t s = s\<lparr>out := out s @ [Log Warn notSubscribedMsg]\<rparr>)
   \<and> (clientID \<in> set (subsOf s t) \<longrightarrow>
      handleMsgUnsubscribe clientID t s =
        s\<lparr>subscriptions := AList.update t (remove1 clientID (subsOf s t)) (subscriptions s)\<rparr>
      \<and> subsOf (handleMsgUnsubscribe clientID t s) t = remove1 clientID (subsOf s t)
      \<and> (\<forall>t'. t' \<noteq> t \<longrightarrow> subsOf (handleMsgUnsubscribe clientID t s) t' = subsOf s t'))
   \<and> step w (ClientMsg clientID (Unsubscribe t)) s = Inr (handleMsgUnsubscribe clientID t s)"
  by (simp add: handleMsgUnsubscribe_eq subsOf_update step_def processMessage_def)

theorem unsubscribe_absent_or_present_witness:
  "''z'' \<notin> set (subsOf sampleState ''eta'')
   \<and> handleMsgUnsubscribe ''z'' ''eta'' sampleState = sampleState\<lparr>out := [Log Warn notSubscribedMsg]\<rparr>
   \<and> ''b'' \<in> set (subsOf sampleState ''eta'')
   \<and> subsOf (handleMsgUnsubscribe ''b'' ''eta'' sampleState) ''eta'' = [''a'', ''c'']
   \<and> subsOf (handleMsgUnsubscribe ''b'' ''eta'' sampleState) ''bus_button'' = [''b'']
   \<and> step sampleEnv (ClientMsg ''z'' (Unsubscribe ''eta'')) sampleState
       = Inr (sampleState\<lparr>out := [Log Warn notSubscribedMsg]\<rparr>)"
proof -
  have a: "''z'' \<notin> set (subsOf sampleState ''eta'')"
    by (simp add: subsOf_def sampleState_def)
  have b: "''b'' \<in> set (subsOf sampleState ''eta'')"
    by (simp add: subsOf_def sampleState_def)
  have o: "out sampleState = []" by (simp add: sampleState_def)
  have r: "remove1 ''b'' (subsOf sampleState ''eta'') = [''a'', ''c'']"
    by (simp add: subsOf_def sampleState_def)
  have u: "subsOf sampleState ''bus_button'' = [''b'']"
    by (simp add: subsOf_def sampleState_def)
  note T1 = unsubscribe_absent_or_present [of "''z''" sampleState "''eta''" sampleEnv]
  note T2 = unsubscribe_absent_or_present [of "''b''" sampleState "''eta''" sampleEnv]
  from T1 a have z1: "handleMsgUnsubscribe ''z'' ''eta'' sampleState
      = sampleState\<lparr>out := out sampleState @ [Log Warn notSubscribedMsg]\<rparr>" by blast
  from T1 have z2: "step sampleEnv (ClientMsg ''z'' (Unsubscribe ''eta'')) sampleState
      = Inr (handleMsgUnsubscribe ''z'' ''eta'' sampleState)" by blast
  from T2 b have b1: "subsOf (handleMsgUnsubscribe ''b'' ''eta'' sampleState) ''eta''
      = remove1 ''b'' (subsOf sampleState ''eta'')" by blast
  from T2 b have "\<forall>t'. t' \<noteq> ''eta'' \<longrightarrow>
      subsOf (handleMsgUnsubscribe ''b'' ''eta'' sampleState) t' = subsOf sampleState t'" by blast
  then have b2: "subsOf (handleMsgUnsubscribe ''b'' ''eta'' sampleState) ''bus_button''
      = subsOf sampleState ''bus_button''" by simp
  show ?thesis unfolding z2 z1 b1 b2 r u o using a b by simp
qed

text \<open>
  C2. In every state that the loop reaches from the new manager, no subscriber list
  holds a client identifier twice; every step keeps it so; and subscribing the same
  client to the same topic twice leaves one entry for it, both steps returning normally.
\<close>

theorem subscribers_at_most_once:
  "(run evs newFusionManager = Inr s \<longrightarrow> subsDistinct s \<and> distinct (subsOf s t))
   \<and> (subsDistinct s0 \<and> step w e s0 = Inr s1 \<longrightarrow> subsDistinct s1)
   \<and> (subsDistinct s0 \<longrightarrow>
        count_list (subsOf (handleMsgSubscribe c t (handleMsgSubscribe c t s0)) t) c = 1
        \<and> run [(w, ClientMsg c (Subscribe t)), (w, ClientMsg c (Subscribe t))] s0
            = Inr (handleMsgSubscribe c t (handleMsgSubscribe c t s0)))"
proof (intro conjI impI)
  assume r: "run evs newFusionManager = Inr s"
  from r newFusionManager_subsDistinct show d: "subsDistinct s"
    by (induction rule: run_induct) (rule step_subsDistinct)
  from subsDistinct_subsOf[OF d] show "distinct (subsOf s t)" .
next
  assume "subsDistinct s0 \<and> step w e s0 = Inr s1"
  then show "subsDistinct s1" using step_subsDistinct by blast
next
  assume d: "subsDistinct s0"
  have m: "c \<in> set (subsOf (handleMsgSubscribe c t s0) t)"
    by (simp add: handleMsgSubscribe_subsOf)
  from subsDistinct_subsOf[OF handleMsgSubscribe_distinct[OF d]] m
  show "count_list (subsOf (handleMsgSubscribe c t (handleMsgSubscribe c t s0)) t) c = 1"
    by (simp add: handleMsgSubscribe_idem count_list_distinct)
next
  show "run [(w, ClientMsg c (Subscribe t)), (w, ClientMsg c (Subscribe t))] s0
            = Inr (handleMsgSubscribe c t (handleMsgSubscribe c t s0))"
    by (simp add: step_def processMessage_def)
qed

theorem subscribers_at_most_once_witness:
  "run [(sampleEnv, AddClient clientA), (sampleEnv, ClientMsg ''a'' (Subscribe ''eta'')),
        (sampleEnv, ClientMsg ''a'' (Subscribe ''eta''))] newFusionManager
     = Inr (newFusionManager\<lparr>subscriptions := [(''eta'', [''a''])], clients := [(''a'', clientA)]\<rparr>)
   \<and> subsDistinct (newFusionManager\<lparr>subscriptions := [(''eta'', [''a''])], clients := [(''a'', clientA)]\<rparr> :: nat fusionManager)
   \<and> subsDistinct sampleState
   \<and> step sampleEnv (ClientMsg ''c'' (Unsubscribe ''eta'')) sampleState
        = Inr (sampleState\<lparr>subscriptions := [(''eta'', [''a'', ''b'']), (''bus_button'', [''b''])]\<rparr>)
   \<and> subsDistinct (sampleState\<lparr>subscriptions := [(''eta'', [''a'', ''b'']), (''bus_button'', [''b''])]\<rparr>)
   \<and> count_list (subsOf (handleMsgSubscribe ''c'' ''bus_button''
        (handleMsgSubscribe ''c'' ''bus_button'' sampleState)) ''bus_button'') ''c'' = 1"
proof -
  let ?s = "newFusionManager\<lparr>subscriptions := [(''eta'', [''a''])], clients := [(''a'', clientA)]\<rparr> :: nat fusionManager"
  let ?s1 = "sampleState\<lparr>subscriptions := [(''eta'', [''a'', ''b'']), (''bus_button'', [''b''])]\<rparr>"
  have r: "run [(sampleEnv, AddClient clientA), (sampleEnv, ClientMsg ''a'' (Subscribe ''eta'')),
        (sampleEnv, ClientMsg ''a'' (Subscribe ''eta''))] newFusionManager = Inr ?s"
    by (simp add: step_def processMessage_def processAddClient_def handleMsgSubscribe_def
        subsOf_def newFusionManager_def clientA_def)
  have d: "subsDistinct sampleState"
    by (simp add: subsDistinct_def sampleState_def)
  have st: "step sampleEnv (ClientMsg ''c'' (Unsubscribe ''eta'')) sampleState = Inr ?s1"
    by (simp add: step_def processMessage_def handleMsgUnsubscribe_def subsOf_def
        sampleState_def deleteAt_def)
  note T = subscribers_at_most_once [of _ ?s "''bus_button''" sampleState sampleEnv
      "ClientMsg ''c'' (Unsubscribe ''eta'')" ?s1 "''c''"]
  from T r have c1: "subsDistinct ?s" by blast
  from T d st have c2: "subsDistinct ?s1" by blast
  from T d have c3: "count_list (subsOf (handleMsgSubscribe ''c'' ''bus_button''
        (handleMsgSubscribe ''c'' ''bus_button'' sampleState)) ''bus_button'') ''c'' = 1" by blast
  from r c1 d st c2 c3 show ?thesis by (intro conjI)
qed

subsection \<open>Order of the subscribers\<close>

lemma update_append_key:
  "k \<notin> fst ` set pre \<Longrightarrow> AList.update k v (pre @ (k, v0) # post) = pre @ (k, v) # post"
  by (induction pre) auto

lemma removeSubs_subscriptions:
  assumes "distinct (map fst (pre @ es))" and "subscriptions s = pre @ es"
  shows "subscriptions (removeSubs c es s) = pre @ map (\<lambda>e. (fst e, remove1 c (snd e))) es"
  using assms
proof (induction es arbitrary: pre s)
  case Nil
  then show ?case by simp
next
  case (Cons e es)
  show ?case
  proof (cases "findSub c (snd e)")
    case None
    then have n: "c \<notin> set (snd e)" by (simp add: findSub_None_iff)
    have "subscriptions (removeSubs c es s) = (pre @ [e]) @ map (\<lambda>e. (fst e, remove1 c (snd e))) es"
      using Cons.prems by (intro Cons.IH) simp_all
    with None n show ?thesis by (simp add: remove1_idem)
  next
    case (Some i)
    let ?v = "remove1 c (snd e)"
    let ?s = "s\<lparr>subscriptions := AList.update (fst e) (deleteAt i (snd e)) (subscriptions s)\<rparr>"
    from Cons.prems(1) have k: "fst e \<notin> fst ` set pre" by auto
    have "AList.update (fst e) ?v (pre @ (fst e, snd e) # es) = pre @ (fst e, ?v) # es"
      by (rule update_append_key[OF k])
    with Cons.prems(2) Some have u: "subscriptions ?s = (pre @ [(fst e, ?v)]) @ es"
      by (simp add: findSub_remove1)
    have "subscriptions (removeSubs c es ?s) = (pre @ [(fst e, ?v)]) @ map (\<lambda>e. (fst e, remove1 c (snd e))) es"
      using Cons.prems(1) by (intro Cons.IH[OF _ u]) simp
    with Some show ?thesis by simp
  qed
qed

lemma processRemoveClient_subscriptions:
  "distinct (map fst (subscriptions s)) \<Longrightarrow>
   subscriptions (processRemoveClient c s) = map (\<lambda>e. (fst e, remove1 c (snd e))) (subscriptions s)"
  using removeSubs_subscriptions[of "[]" "subscriptions s" s c]
  by (simp add: processRemoveClient_def Let_def)

lemma map_of_map_snd: "map_of (map (\<lambda>e. (fst e, f (snd e))) al) k = map_option f (map_of al k)"
  by (induction al) auto

lemma processRemoveClient_subsOf:
  "distinct (map fst (subscriptions s)) \<Longrightarrow>
   subsOf (processRemoveClient c s) t = remove1 c (subsOf s t)"
  by (simp add: subsOf_def processRemoveClient_subscriptions map_of_map_snd split: option.splits)

lemma processRemoveClient_others:
  "clients (processRemoveClient c s) = AList.delete c (clients s)
   \<and> tracks (processRemoveClient c s) = tracks s
   \<and> busButtonCount (processRemoveClient c s) = busButtonCount s
   \<and> store (processRemoveClient c s) = store s \<and> out (processRemoveClient c s) = out s"
  by (simp add: processRemoveClient_def Let_def removeSubs_others)

lemma handleMsgUnsubscribe_subsOf:
  "subsOf (handleMsgUnsubscribe c t s) t' = (if t' = t then remove1 c (subsOf s t) else subsOf s t')"
proof (cases "c \<in> set (subsOf s t)")
  case True
  then show ?thesis by (simp add: handleMsgUnsubscribe_eq subsOf_update)
next
  case False
  then have "handleMsgUnsubscribe c t s = s\<lparr>out := out s @ [Log Warn notSubscribedMsg]\<rparr>"
    by (simp add: handleMsgUnsubscribe_eq)
  then have "subsOf (handleMsgUnsubscribe c t s) t' = subsOf s t'" by (simp add: subsOf_def)
  with False show ?thesis by (simp add: remove1_idem)
qed

lemma remove1_filter_distinct: "distinct xs \<Longrightarrow> remove1 c xs = filter (\<lambda>x. x \<noteq> c) xs"
proof (induction xs)
  case Nil
  then show ?case by simp
next
  case (Cons x xs)
  then have "x \<noteq> c \<or> c \<notin> set xs" by auto
  with Cons show ?case by (auto simp: remove1_idem)
qed

text \<open>
  C8, as stated. Removing the first of three subscribers by swap-delete would give the
  list with the last subscriber moved to the front; the handlers give the list with the
  two remaining subscribers in their old order.
\<close>

theorem removal_is_not_swap_delete:
  "findSub ''a'' (subsOf sampleState ''eta'') = Some 0
   \<and> subsOf (handleMsgUnsubscribe ''a'' ''eta'' sampleState) ''eta'' = [''b'', ''c'']
   \<and> subsOf (processRemoveClient ''a'' sampleState) ''eta'' = [''b'', ''c'']
   \<and> swapDelete 0 (subsOf sampleState ''eta'') = [''c'', ''b'']"
  by (simp add: subsOf_def sampleState_def handleMsgUnsubscribe_def processRemoveClient_def
      deleteAt_def swapDelete_def)

text \<open>
  C8, amended. Subscribing changes the list of its topic only, and only by appending:
  a client that is not in the list is put at the end, behind the subscribers that were
  there, in their old order; a client that is in the list leaves the whole state as it
  is. Unsubscribing and deregistering delete the first occurrence of the client and
  close the gap, so the remaining subscribers keep their order (with the at-most-once
  invariant the result is the old list filtered); unsubscribing leaves the lists of the
  other topics as they are.
\<close>

theorem subscriber_order_preserved:
  "subsOf (handleMsgSubscribe clientID t s) t'
     = (if t' = t \<and> clientID \<notin> set (subsOf s t) then subsOf s t @ [clientID] else subsOf s t')
   \<and> (clientID \<in> set (subsOf s t) \<longrightarrow> handleMsgSubscribe clientID t s = s)
   \<and> (clientID \<notin> set (subsOf s t) \<longrightarrow>
        subsOf (handleMsgSubscribe clientID t s) t = subsOf s t @ [clientID]
        \<and> handleMsgSubscribe clientID t s
            = s\<lparr>subscriptions := AList.update t (subsOf s t @ [clientID]) (subscriptions s)\<rparr>)
   \<and> subsOf (handleMsgUnsubscribe clientID t s) t'
        = (if t' = t then remove1 clientID (subsOf s t) else subsOf s t')
   \<and> subsOf (handleMsgUnsubscribe clientID t s) t = remove1 clientID (subsOf s t)
   \<and> (distinct (map fst (subscriptions s)) \<longrightarrow>
        subsOf (processRemoveClient clientID s) t = remove1 clientID (subsOf s t))
   \<and> (distinct (subsOf s t) \<longrightarrow>
        remove1 clientID (subsOf s t) = filter (\<lambda>c. c \<noteq> clientID) (subsOf s t))
   \<and> (findSub clientID (subsOf s t) = Some i \<longrightarrow>
        remove1 clientID (subsOf s t) = take i (subsOf s t) @ drop (Suc i) (subsOf s t))"
proof (intro conjI impI)
  show "subsOf (handleMsgSubscribe clientID t s) t'
     = (if t' = t \<and> clientID \<notin> set (subsOf s t) then subsOf s t @ [clientID] else subsOf s t')"
    by (rule handleMsgSubscribe_subsOf)
next
  assume "clientID \<in> set (subsOf s t)"
  then show "handleMsgSubscribe clientID t s = s" by (simp add: handleMsgSubscribe_def)
next
  assume "clientID \<notin> set (subsOf s t)"
  then show "subsOf (handleMsgSubscribe clientID t s) t = subsOf s t @ [clientID]"
    by (simp add: handleMsgSubscribe_subsOf)
next
  assume "clientID \<notin> set (subsOf s t)"
  then show "handleMsgSubscribe clientID t s
      = s\<lparr>subscriptions := AList.update t (subsOf s t @ [clientID]) (subscriptions s)\<rparr>"
    by (simp add: handleMsgSubscribe_def)
next
  show "subsOf (handleMsgUnsubscribe clientID t s) t'
        = (if t' = t then remove1 clientID (subsOf s t) else subsOf s t')"
    by (rule handleMsgUnsubscribe_subsOf)
next
  show "subsOf (handleMsgUnsubscribe clientID t s) t = remove1 clientID (subsOf s t)"
    by (simp add: handleMsgUnsubscribe_subsOf)
next
  assume "distinct (map fst (subscriptions s))"
  then show "subsOf (processRemoveClient clientID s) t = remove1 clientID (subsOf s t)"
    by (rule processRemoveClient_subsOf)
next
  assume "distinct (subsOf s t)"
  then show "remove1 clientID (subsOf s t) = filter (\<lambda>c. c \<noteq> clientID) (subsOf s t)"
    by (rule remove1_filter_distinct)
next
  assume "findSub clientID (subsOf s t) = Some i"
  from findSub_remove1[OF this] show
    "remove1 clientID (subsOf s t) = take i (subsOf s t) @ drop (Suc i) (subsOf s t)"
    by (simp add: deleteAt_def)
qed

theorem subscriber_order_preserved_witness:
  "''z'' \<notin> set (subsOf sampleState ''eta'')
   \<and> subsOf (handleMsgSubscribe ''z'' ''eta'' sampleState) ''eta'' = [''a'', ''b'', ''c'', ''z'']
   \<and> subsOf (handleMsgSubscribe ''z'' ''eta'' sampleState) ''bus_button'' = [''b'']
   \<and> ''a'' \<in> set (subsOf sampleState ''eta'')
   \<and> handleMsgSubscribe ''a'' ''eta'' sampleState = sampleState
   \<and> subsOf (handleMsgSubscribe ''a'' ''eta'' sampleState) ''eta'' = [''a'', ''b'', ''c'']
   \<and> distinct (map fst (subscriptions sampleState))
   \<and> subsOf (processRemoveClient ''b'' sampleState) ''eta'' = [''a'', ''c'']
   \<and> distinct (subsOf sampleState ''eta'')
   \<and> findSub ''b'' (subsOf sampleState ''eta'') = Some 1
   \<and> remove1 ''b'' (subsOf sampleState ''eta'') = filter (\<lambda>c. c \<noteq> ''b'') (subsOf sampleState ''eta'')"
proof -
  have e: "subsOf sampleState ''eta'' = [''a'', ''b'', ''c'']"
    by (simp add: subsOf_def sampleState_def)
  have u: "subsOf sampleState ''bus_button'' = [''b'']"
    by (simp add: subsOf_def sampleState_def)
  have a: "''z'' \<notin> set (subsOf sampleState ''eta'')" by (simp add: e)
  have m: "''a'' \<in> set (subsOf sampleState ''eta'')" by (simp add: e)
  have k: "distinct (map fst (subscriptions sampleState))" by (simp add: sampleState_def)
  have d: "distinct (subsOf sampleState ''eta'')" by (simp add: e)
  have f: "findSub ''b'' (subsOf sampleState ''eta'') = Some 1" by (simp add: e)
  note T1 = subscriber_order_preserved [where clientID="''z''" and s=sampleState and t="''eta''"
      and t'="''bus_button''" and i=0]
  note T2 = subscriber_order_preserved [where clientID="''b''" and s=sampleState and t="''eta''"
      and t'="''eta''" and i=1]
  note T3 = subscriber_order_preserved [where clientID="''a''" and s=sampleState and t="''eta''"
      and t'="''eta''" and i=0]
  from T1 a have c1: "subsOf (handleMsgSubscribe ''z'' ''eta'' sampleState) ''eta''
      = subsOf sampleState ''eta'' @ [''z'']" by blast
  from T1 have "subsOf (handleMsgSubscribe ''z'' ''eta'' sampleState) ''bus_button''
     = (if ''bus_button'' = ''eta'' \<and> ''z'' \<notin> set (subsOf sampleState ''eta'')
        then subsOf sampleState ''eta'' @ [''z''] else subsOf sampleState ''bus_button'')" by blast
  then have c0: "subsOf (handleMsgSubscribe ''z'' ''eta'' sampleState) ''bus_button'' = [''b'']"
    by (simp add: u)
  from T3 m have c5: "handleMsgSubscribe ''a'' ''eta'' sampleState = sampleState" by blast
  from T3 have "subsOf (handleMsgSubscribe ''a'' ''eta'' sampleState) ''eta''
     = (if ''eta'' = ''eta'' \<and> ''a'' \<notin> set (subsOf sampleState ''eta'')
        then subsOf sampleState ''eta'' @ [''a''] else subsOf sampleState ''eta'')" by blast
  with m have c6: "subsOf (handleMsgSubscribe ''a'' ''eta'' sampleState) ''eta'' = [''a'', ''b'', ''c'']"
    by (simp add: e)
  from T2 k have c2: "subsOf (processRemoveClient ''b'' sampleState) ''eta''
      = remove1 ''b'' (subsOf sampleState ''eta'')" by blast
  from T2 d have c3: "remove1 ''b'' (subsOf sampleState ''eta'')
      = filter (\<lambda>c. c \<noteq> ''b'') (subsOf sampleState ''eta'')" by blast
  from c1 have c1': "subsOf (handleMsgSubscribe ''z'' ''eta'' sampleState) ''eta'' = [''a'', ''b'', ''c'', ''z'']"
    by (simp add: e)
  from c2 have c2': "subsOf (processRemoveClient ''b'' sampleState) ''eta'' = [''a'', ''c'']"
    by (simp add: e)
  from a c1' c0 m c5 c6 k c2' d f c3 show ?thesis by (intro conjI)
qed

subsection \<open>The registry invariant\<close>

lemma handleMsgPosition_others:
  "subscriptions (handleMsgPosition w fp s) = subscriptions s
   \<and> clients (handleMsgPosition w fp s) = clients s
   \<and> busButtonCount (handleMsgPosition w fp s) = busButtonCount s
   \<and> out (handleMsgPosition w fp s) = out s"
  by (simp add: handleMsgPosition_def Let_def split: prod.splits)

lemma processDebug_others:
  "subscriptions (processDebug w s) = subscriptions s
   \<and> clients (processDebug w s) = clients s
   \<and> tracks (processDebug w s) = tracks s
   \<and> busButtonCount (processDebug w s) = busButtonCount s"
  by (simp add: processDebug_def assembleDebug_def Let_def split: prod.splits)

lemma readerStamp_others:
  "subscriptions (readerStamp t c s) = subscriptions s
   \<and> tracks (readerStamp t c s) = tracks s
   \<and> busButtonCount (readerStamp t c s) = busButtonCount s
   \<and> store (readerStamp t c s) = store s \<and> out (readerStamp t c s) = out s"
  by (simp add: readerStamp_def split: option.splits)

lemma readerStamp_keys: "map fst (clients (readerStamp t c s)) = map fst (clients s)"
proof (cases "map_of (clients s) c")
  case None
  then show ?thesis by (simp add: readerStamp_def)
next
  case (Some cl)
  then have "c \<in> fst ` set (clients s)" by (auto dest: map_of_SomeD intro: rev_image_eqI)
  with Some show ?thesis by (simp add: readerStamp_def update_keys)
qed

lemma update_same_proj:
  "map_of al k = Some v \<Longrightarrow> g v' = g v \<Longrightarrow>
   map (\<lambda>e. g (snd e)) (AList.update k v' al) = map (\<lambda>e. g (snd e)) al"
  by (induction al) (auto split: if_splits)

lemma readerStamp_conns:
  "map (\<lambda>e. conn (snd e)) (clients (readerStamp t c s)) = map (\<lambda>e. conn (snd e)) (clients s)"
proof (cases "map_of (clients s) c")
  case None
  then show ?thesis by (simp add: readerStamp_def)
next
  case (Some cl)
  from update_same_proj[OF Some, of conn "cl\<lparr>lastMessageTime := t\<rparr>"] Some
  show ?thesis by (simp add: readerStamp_def)
qed

lemma step_keys_subscriptions:
  assumes "distinct (map fst (subscriptions s))" "step w e s = Inr s'"
  shows "distinct (map fst (subscriptions s'))"
  using assms(2)
proof (cases rule: step_elim)
  case (Add c)
  with assms(1) show ?thesis by (simp add: processAddClient_def)
next
  case (Remove c)
  with assms(1) show ?thesis by (simp add: processRemoveClient_subscriptions comp_def)
next
  case (Sub c t)
  with assms(1) show ?thesis by (simp add: handleMsgSubscribe_def Let_def distinct_update)
next
  case (Unsub c t)
  with assms(1) show ?thesis by (simp add: handleMsgUnsubscribe_eq distinct_update)
next
  case (Pos c fp)
  with assms(1) show ?thesis by simp
next
  case (Button c fbb effs)
  with assms(1) show ?thesis by simp
next
  case (Other c)
  with assms(1) show ?thesis by simp
next
  case (Server sm effs)
  with assms(1) show ?thesis by simp
next
  case Debug
  with assms(1) show ?thesis by simp
next
  case (Stamp c)
  with assms(1) show ?thesis by simp
next
  case (NewFloat v)
  with assms(1) show ?thesis by (simp add: readerNewFloat_def)
qed

lemma step_keys_clients:
  assumes "distinct (map fst (clients s))" "step w e s = Inr s'"
  shows "distinct (map fst (clients s'))"
  using assms(2)
proof (cases rule: step_elim)
  case (Add c)
  with assms(1) show ?thesis by (simp add: processAddClient_def distinct_update)
next
  case (Remove c)
  with assms(1) show ?thesis by (simp add: processRemoveClient_others distinct_delete)
next
  case (Sub c t)
  with assms(1) show ?thesis by (simp add: handleMsgSubscribe_def Let_def)
next
  case (Unsub c t)
  with assms(1) show ?thesis by (simp add: handleMsgUnsubscribe_eq)
next
  case (Pos c fp)
  with assms(1) show ?thesis by (simp add: handleMsgPosition_others)
next
  case (Button c fbb effs)
  with assms(1) show ?thesis by simp
next
  case (Other c)
  with assms(1) show ?thesis by simp
next
  case (Server sm effs)
  with assms(1) show ?thesis by simp
next
  case Debug
  with assms(1) show ?thesis by (simp add: processDebug_others)
next
  case (Stamp c)
  with assms(1) show ?thesis by (simp add: readerStamp_keys)
next
  case (NewFloat v)
  with assms(1) show ?thesis by (simp add: readerNewFloat_def)
qed

lemma subsRegistered_cong:
  "subscriptions s' = subscriptions s \<Longrightarrow> set (map fst (clients s')) = set (map fst (clients s))
   \<Longrightarrow> subsRegistered s \<Longrightarrow> subsRegistered s'"
  by (simp add: subsRegistered_def)

lemma subsRegistered_subsOf: "subsRegistered s \<Longrightarrow> c \<in> set (subsOf s t) \<Longrightarrow> c \<in> set (map fst (clients s))"
proof -
  assume r: "subsRegistered s" and c: "c \<in> set (subsOf s t)"
  from c obtain subs where m: "map_of (subscriptions s) t = Some subs" and cs: "c \<in> set subs"
    by (cases "map_of (subscriptions s) t") (simp_all add: subsOf_def)
  from map_of_SomeD[OF m] have "(t, subs) \<in> set (subscriptions s)" .
  with r cs show ?thesis unfolding subsRegistered_def by fastforce
qed

lemma subsRegistered_update:
  assumes "subsRegistered s" "\<forall>c \<in> set v. c \<in> set (map fst (clients s))"
  shows "subsRegistered (s\<lparr>subscriptions := AList.update t v (subscriptions s)\<rparr>)"
proof -
  have "\<forall>e \<in> set (AList.update t v (subscriptions s)). \<forall>c \<in> set (snd e). c \<in> set (map fst (clients s))"
  proof
    fix e assume "e \<in> set (AList.update t v (subscriptions s))"
    with set_update_subset[of t v "subscriptions s"] have "e = (t, v) \<or> e \<in> set (subscriptions s)"
      by auto
    with assms show "\<forall>c \<in> set (snd e). c \<in> set (map fst (clients s))"
      unfolding subsRegistered_def by auto
  qed
  then show ?thesis by (simp add: subsRegistered_def)
qed

lemma processRemoveClient_registered:
  assumes k: "distinct (map fst (subscriptions s))" and d: "subsDistinct s" and r: "subsRegistered s"
  shows "subsRegistered (processRemoveClient c s)"
proof -
  have "\<forall>e \<in> set (subscriptions s). \<forall>x \<in> set (remove1 c (snd e)). x \<in> set (removeAll c (map fst (clients s)))"
  proof (intro ballI)
    fix e x assume e: "e \<in> set (subscriptions s)" and x: "x \<in> set (remove1 c (snd e))"
    from d e have "distinct (snd e)" by (simp add: subsDistinct_def)
    with x have "x \<noteq> c" "x \<in> set (snd e)" by auto
    with r e show "x \<in> set (removeAll c (map fst (clients s)))"
      unfolding subsRegistered_def by auto
  qed
  then show ?thesis
    by (simp add: subsRegistered_def processRemoveClient_subscriptions[OF k]
        processRemoveClient_others delete_keys)
qed

lemma step_subsRegistered:
  assumes "distinct (map fst (subscriptions s))" "subsDistinct s" "subsRegistered s"
    "admissible s e" "step w e s = Inr s'"
  shows "subsRegistered s'"
  using assms(5)
proof (cases rule: step_elim)
  case (Add c)
  have "set (map fst (clients s)) \<subseteq> set (map fst (clients s'))"
    using Add by (auto simp: processAddClient_def dom_update)
  with assms(3) Add show ?thesis unfolding subsRegistered_def processAddClient_def by auto
next
  case (Remove c)
  with assms show ?thesis by (simp add: processRemoveClient_registered)
next
  case (Sub c t)
  from assms(4) Sub have reg: "c \<in> set (map fst (clients s))" by (simp add: admissible_def)
  show ?thesis
  proof (cases "c \<in> set (subsOf s t)")
    case True
    with Sub assms(3) show ?thesis by (simp add: handleMsgSubscribe_def)
  next
    case False
    have "\<forall>x \<in> set (subsOf s t @ [c]). x \<in> set (map fst (clients s))"
      using reg subsRegistered_subsOf[OF assms(3), of _ t] by auto
    from subsRegistered_update[OF assms(3) this, of t] False Sub show ?thesis
      by (simp add: handleMsgSubscribe_def)
  qed
next
  case (Unsub c t)
  show ?thesis
  proof (cases "c \<in> set (subsOf s t)")
    case False
    with Unsub assms(3) show ?thesis by (simp add: handleMsgUnsubscribe_eq subsRegistered_def)
  next
    case True
    have "\<forall>x \<in> set (remove1 c (subsOf s t)). x \<in> set (map fst (clients s))"
      using subsRegistered_subsOf[OF assms(3), of _ t] by (auto dest: notin_set_remove1)
    from subsRegistered_update[OF assms(3) this, of t] True Unsub show ?thesis
      by (simp add: handleMsgUnsubscribe_eq)
  qed
next
  case (Pos c fp)
  with assms(3) show ?thesis by (simp add: subsRegistered_def handleMsgPosition_others)
next
  case (Button c fbb effs)
  with assms(3) show ?thesis by (simp add: subsRegistered_def)
next
  case (Other c)
  with assms(3) show ?thesis by (simp add: subsRegistered_def)
next
  case (Server sm effs)
  with assms(3) show ?thesis by (simp add: subsRegistered_def)
next
  case Debug
  with assms(3) show ?thesis by (simp add: subsRegistered_def processDebug_others)
next
  case (Stamp c)
  with assms(3) show ?thesis by (simp add: subsRegistered_def readerStamp_keys)
next
  case (NewFloat v)
  with assms(3) show ?thesis by (simp add: subsRegistered_def readerNewFloat_def)
qed

subsection \<open>Broadcasts in a state with the registry invariant\<close>

lemma update_fresh: "k \<notin> fst ` set al \<Longrightarrow> AList.update k v al = al @ [(k, v)]"
  by (induction al) auto

lemma delete_conns_distinct:
  "distinct (map (\<lambda>e. g (snd e)) al) \<Longrightarrow> distinct (map (\<lambda>e. g (snd e)) (AList.delete k al))"
  by (simp add: AList.delete_eq distinct_map_filter)

lemma step_connsOk:
  assumes "connsOk s" "admissible s e" "step w e s = Inr s'"
  shows "connsOk s'"
  using assms(3)
proof (cases rule: step_elim)
  case (Add c)
  from assms(2) Add have a: "conn c \<noteq> None" "id_c c \<notin> fst ` set (clients s)"
    "conn c \<notin> set (map (\<lambda>e. conn (snd e)) (clients s))"
    by (simp_all add: admissible_def)
  from Add update_fresh[OF a(2)] have "clients s' = clients s @ [(id_c c, c)]"
    by (simp add: processAddClient_def)
  with assms(1) a show ?thesis by (auto simp: connsOk_def)
next
  case (Remove c)
  have "set (AList.delete c (clients s)) \<subseteq> set (clients s)" by (auto simp: AList.delete_eq)
  with assms(1) Remove delete_conns_distinct[of conn "clients s" c] show ?thesis
    by (auto simp: connsOk_def processRemoveClient_others)
next
  case (Sub c t)
  with assms(1) show ?thesis by (simp add: connsOk_def handleMsgSubscribe_def Let_def)
next
  case (Unsub c t)
  with assms(1) show ?thesis by (simp add: connsOk_def handleMsgUnsubscribe_eq)
next
  case (Pos c fp)
  with assms(1) show ?thesis by (simp add: connsOk_def handleMsgPosition_others)
next
  case (Button c fbb effs)
  with assms(1) show ?thesis by (simp add: connsOk_def)
next
  case (Other c)
  with assms(1) show ?thesis by (simp add: connsOk_def)
next
  case (Server sm effs)
  with assms(1) show ?thesis by (simp add: connsOk_def)
next
  case Debug
  with assms(1) show ?thesis by (simp add: connsOk_def processDebug_others)
next
  case (Stamp c)
  show ?thesis
  proof (cases "map_of (clients s) c")
    case None
    with Stamp assms(1) show ?thesis by (simp add: readerStamp_def)
  next
    case (Some cl)
    from map_of_SomeD[OF Some] assms(1) have k: "conn cl \<noteq> None" by (auto simp: connsOk_def)
    have "\<forall>e \<in> set (clients s'). conn (snd e) \<noteq> None"
    proof
      fix e assume "e \<in> set (clients s')"
      with Stamp Some set_update_subset[of c "cl\<lparr>lastMessageTime := now w\<rparr>" "clients s"]
      have "e = (c, cl\<lparr>lastMessageTime := now w\<rparr>) \<or> e \<in> set (clients s)"
        by (auto simp: readerStamp_def)
      with k assms(1) show "conn (snd e) \<noteq> None" by (auto simp: connsOk_def)
    qed
    with assms(1) Stamp readerStamp_conns[of "now w" c s] show ?thesis by (simp add: connsOk_def)
  qed
next
  case (NewFloat v)
  with assms(1) show ?thesis by (simp add: connsOk_def readerNewFloat_def)
qed

lemma step_registryInv:
  assumes "registryInv s" "admissible s e" "step w e s = Inr s'"
  shows "registryInv s'"
  using assms step_keys_subscriptions[of s w e s'] step_keys_clients[of s w e s']
    step_subsDistinct[of s w e s'] step_subsRegistered[of s e w s'] step_connsOk[of s e w s']
  by (simp add: registryInv_def)

lemma newFusionManager_registryInv: "registryInv newFusionManager"
  by (simp add: registryInv_def newFusionManager_def subsDistinct_def subsRegistered_def connsOk_def)

lemma registryInv_connOf:
  assumes "registryInv s" "c \<in> set (subsOf s t)"
  shows "\<exists>cl k. map_of (clients s) c = Some cl \<and> conn cl = Some k"
proof -
  from assms(1) have "subsRegistered s" by (simp add: registryInv_def)
  from subsRegistered_subsOf[OF this assms(2)] have "c \<in> set (map fst (clients s))" .
  then obtain cl where m: "map_of (clients s) c = Some cl"
    by (cases "map_of (clients s) c") (auto simp: map_of_eq_None_iff)
  from map_of_SomeD[OF m] assms(1) have "conn cl \<noteq> None"
    by (auto simp: registryInv_def connsOk_def)
  with m show ?thesis by auto
qed

lemma writeAll_ok:
  fixes s :: "'a fusionManager"
  assumes "\<forall>c \<in> set cs. \<exists>cl k. map_of (clients s) c = Some cl \<and> conn cl = Some k"
  shows "writeAll w b cs s =
     Inr (s\<lparr>out := out s @ concat (map (\<lambda>c. writeEffects w b (the (connOf s c))) cs)\<rparr>)"
  using assms
proof (induction cs arbitrary: s)
  case Nil
  then show ?case by simp
next
  case (Cons c cs)
  from Cons.prems obtain cl k where ck: "map_of (clients s) c = Some cl" "conn cl = Some k"
    by auto
  let ?s = "s\<lparr>out := out s @ writeEffects w b k\<rparr>"
  have "\<forall>c \<in> set cs. \<exists>cl k. map_of (clients ?s) c = Some cl \<and> conn cl = Some k"
    using Cons.prems by simp
  from Cons.IH[OF this] have "writeAll w b cs ?s =
     Inr (?s\<lparr>out := out ?s @ concat (map (\<lambda>c. writeEffects w b (the (connOf ?s c))) cs)\<rparr>)" .
  with ck show ?case by (simp add: writeEffects_def connOf_def)
qed

lemma processServerMessage_ok:
  assumes "registryInv s" "marshal w (msg sm) = Some b"
  shows "processServerMessage w sm s =
     Inr (s\<lparr>out := out s @ Marshal (msg sm) #
        concat (map (\<lambda>c. writeEffects w b (the (connOf s c))) (subsOf s (topic sm)))\<rparr>)"
proof -
  let ?s = "s\<lparr>out := out s @ [Marshal (msg sm)]\<rparr>"
  have "\<forall>c \<in> set (subsOf s (topic sm)). \<exists>cl k. map_of (clients ?s) c = Some cl \<and> conn cl = Some k"
    using registryInv_connOf[OF assms(1)] by simp
  from writeAll_ok[OF this, of w b] assms(2) show ?thesis
    by (simp add: processServerMessage_def connOf_def)
qed

lemma processServerMessage_fail:
  "marshal w (msg sm) = None \<Longrightarrow>
   processServerMessage w sm s = Inr (s\<lparr>out := out s @ [Marshal (msg sm), Log Error unableToMarshal]\<rparr>)"
  by (simp add: processServerMessage_def)

lemma registryInv_count: "registryInv (s\<lparr>busButtonCount := x\<rparr>) = registryInv s"
  by (simp add: registryInv_def subsDistinct_def subsRegistered_def connsOk_def)

lemma processServerMessage_total:
  "registryInv s \<Longrightarrow> \<exists>s'. processServerMessage w sm s = Inr s'"
  by (cases "marshal w (msg sm)") (simp_all add: processServerMessage_fail processServerMessage_ok)

lemma step_total:
  assumes "registryInv s"
  shows "\<exists>s'. step w e s = Inr s'"
proof (cases e)
  case (ClientMsg c m)
  show ?thesis
  proof (cases m)
    case (BusButton fbb)
    from assms have "registryInv (s\<lparr>busButtonCount := busButtonCount s + 1\<rparr>)"
      by (simp add: registryInv_count)
    from processServerMessage_total[OF this] ClientMsg BusButton show ?thesis
      by (simp add: step_def processMessage_def handleMsgBusButton_eq)
  qed (simp_all add: ClientMsg step_def processMessage_def)
next
  case (ServerMsg sm)
  with processServerMessage_total[OF assms] show ?thesis by (simp add: step_def)
qed (simp_all add: step_def)

lemma run_registryInv:
  "registryInv s \<Longrightarrow> admissibleRun evs s \<Longrightarrow>
   \<exists>s'. run evs s = Inr s' \<and> registryInv s'"
proof (induction evs arbitrary: s)
  case Nil
  then show ?case by simp
next
  case (Cons we evs)
  from step_total[OF Cons.prems(1)] obtain s1 where s1: "step (fst we) (snd we) s = Inr s1"
    by blast
  from Cons.prems(2) s1 have a: "admissible s (snd we)" "admissibleRun evs s1" by simp_all
  from step_registryInv[OF Cons.prems(1) a(1) s1] have "registryInv s1" .
  from Cons.IH[OF this a(2)] s1 show ?case by simp
qed

text \<open>
  C10. Along every run of the loop from the new manager on inbox messages that the
  rest of the program can send (client messages come from registered clients), every
  subscribed identifier is a key of the registry, so the lookup of a broadcast finds
  each subscriber's client and neither a broadcast nor the run panics; and every such
  step keeps the invariant (together with the distinctness it relies on).
\<close>

theorem subscribers_are_registered:
  "(admissibleRun evs newFusionManager \<longrightarrow> run evs newFusionManager \<noteq> Inl NilPointerDereference)
   \<and> (admissibleRun evs newFusionManager \<and> run evs newFusionManager = Inr s \<longrightarrow>
        subsRegistered s
        \<and> (\<forall>c \<in> set (subsOf s t). map_of (clients s) c \<noteq> None)
        \<and> processServerMessage w sm s \<noteq> Inl NilPointerDereference)
   \<and> (registryInv s0 \<and> admissible s0 e \<and> step w e s0 = Inr s1 \<longrightarrow>
        registryInv s1 \<and> subsRegistered s1)"
proof (intro conjI impI)
  assume "admissibleRun evs newFusionManager"
  from run_registryInv[OF newFusionManager_registryInv this]
  show "run evs newFusionManager \<noteq> Inl NilPointerDereference" by auto
next
  assume a: "admissibleRun evs newFusionManager \<and> run evs newFusionManager = Inr s"
  with run_registryInv[OF newFusionManager_registryInv, of evs] have i: "registryInv s" by auto
  then show "subsRegistered s" by (simp add: registryInv_def)
  from registryInv_connOf[OF i] show "\<forall>c \<in> set (subsOf s t). map_of (clients s) c \<noteq> None"
    by fastforce
  from processServerMessage_total[OF i, of w sm]
  show "processServerMessage w sm s \<noteq> Inl NilPointerDereference" by auto
next
  assume a: "registryInv s0 \<and> admissible s0 e \<and> step w e s0 = Inr s1"
  then have "registryInv s1" using step_registryInv by blast
  then show "registryInv s1" "subsRegistered s1" by (simp_all add: registryInv_def)
qed

theorem subscribers_are_registered_witness:
  "admissibleRun [(sampleEnv, AddClient clientA), (sampleEnv, AddClient clientB),
        (sampleEnv, ClientMsg ''a'' (Subscribe ''eta'')), (sampleEnv, ClientMsg ''b'' (Subscribe ''eta'')),
        (sampleEnv, RemoveClient ''a'')] newFusionManager
   \<and> run [(sampleEnv, AddClient clientA), (sampleEnv, AddClient clientB),
        (sampleEnv, ClientMsg ''a'' (Subscribe ''eta'')), (sampleEnv, ClientMsg ''b'' (Subscribe ''eta'')),
        (sampleEnv, RemoveClient ''a'')] newFusionManager
      = Inr (newFusionManager\<lparr>subscriptions := [(''eta'', [''b''])], clients := [(''b'', clientB)]\<rparr>)
   \<and> subsRegistered (newFusionManager\<lparr>subscriptions := [(''eta'', [''b''])],
        clients := [(''b'', clientB)]\<rparr> :: nat fusionManager)
   \<and> processServerMessage sampleEnv \<lparr>topic = ''eta'', msg = ForeignV 5\<rparr>
        (newFusionManager\<lparr>subscriptions := [(''eta'', [''b''])], clients := [(''b'', clientB)]\<rparr>)
      \<noteq> Inl NilPointerDereference
   \<and> registryInv sampleState
   \<and> admissible sampleState (ClientMsg ''a'' (Subscribe ''bus_button''))
   \<and> step sampleEnv (ClientMsg ''a'' (Subscribe ''bus_button'')) sampleState
      = Inr (sampleState\<lparr>subscriptions := [(''eta'', [''a'', ''b'', ''c'']), (''bus_button'', [''b'', ''a''])]\<rparr>)
   \<and> registryInv (sampleState\<lparr>subscriptions := [(''eta'', [''a'', ''b'', ''c'']), (''bus_button'', [''b'', ''a''])]\<rparr>)"
proof -
  let ?evs = "[(sampleEnv, AddClient clientA), (sampleEnv, AddClient clientB),
        (sampleEnv, ClientMsg ''a'' (Subscribe ''eta'')), (sampleEnv, ClientMsg ''b'' (Subscribe ''eta'')),
        (sampleEnv, RemoveClient ''a'')]"
  let ?s = "newFusionManager\<lparr>subscriptions := [(''eta'', [''b''])], clients := [(''b'', clientB)]\<rparr> :: nat fusionManager"
  let ?e = "ClientMsg ''a'' (Subscribe ''bus_button'') :: nat event"
  let ?s1 = "sampleState\<lparr>subscriptions := [(''eta'', [''a'', ''b'', ''c'']), (''bus_button'', [''b'', ''a''])]\<rparr>"
  have ad: "admissibleRun ?evs newFusionManager"
    by (simp add: admissible_def step_def processMessage_def processAddClient_def
        handleMsgSubscribe_def subsOf_def newFusionManager_def clientA_def clientB_def)
  have r: "run ?evs newFusionManager = Inr ?s"
    by (simp add: step_def processMessage_def processAddClient_def processRemoveClient_def
        handleMsgSubscribe_def subsOf_def newFusionManager_def clientA_def clientB_def deleteAt_def)
  have i: "registryInv sampleState"
    by (simp add: registryInv_def subsDistinct_def subsRegistered_def connsOk_def sampleState_def
        clientA_def clientB_def clientC_def)
  have a: "admissible sampleState ?e"
    by (simp add: admissible_def sampleState_def)
  have st: "step sampleEnv ?e sampleState = Inr ?s1"
    by (simp add: step_def processMessage_def handleMsgSubscribe_def subsOf_def sampleState_def)
  note T = subscribers_are_registered [of ?evs ?s "''eta''" sampleEnv
      "\<lparr>topic = ''eta'', msg = ForeignV 5\<rparr>" sampleState ?e ?s1]
  from T ad r have c1: "subsRegistered ?s" by blast
  from T ad r have c2: "processServerMessage sampleEnv \<lparr>topic = ''eta'', msg = ForeignV 5\<rparr> ?s
      \<noteq> Inl NilPointerDereference" by blast
  from T i a st have c3: "registryInv ?s1" by blast
  from ad r c1 c2 i a st c3 show ?thesis by (intro conjI)
qed

subsection \<open>Reading the effects of a broadcast\<close>

lemma newEffects_append [simp]: "newEffects s (s\<lparr>out := out s @ effs\<rparr>) = effs"
  by (simp add: newEffects_def)

lemma newEffects_append2 [simp]:
  "newEffects s (s\<lparr>busButtonCount := n, out := out s @ effs\<rparr>) = effs"
  by (simp add: newEffects_def)

lemma marshalled_append: "marshalled (xs @ ys) = marshalled xs @ marshalled ys"
  by (induction xs rule: marshalled.induct) simp_all

lemma writesOn_append: "writesOn k (xs @ ys) = writesOn k xs @ writesOn k ys"
  by (induction k xs rule: writesOn.induct) simp_all

lemma writeAttempts_append: "writeAttempts (xs @ ys) = writeAttempts xs @ writeAttempts ys"
  by (induction xs rule: writeAttempts.induct) simp_all

lemma marshalled_writes: "marshalled (concat (map (\<lambda>c. writeEffects w b (f c)) cs)) = []"
  by (induction cs) (simp_all add: marshalled_append writeEffects_def)

lemma writeAttempts_writes:
  "writeAttempts (concat (map (\<lambda>c. writeEffects w b (f c)) cs)) = map f cs"
  by (induction cs) (simp_all add: writeAttempts_append writeEffects_def)

lemma writesOn_writes_none:
  "\<forall>c \<in> set cs. f c \<noteq> k \<Longrightarrow> writesOn k (concat (map (\<lambda>c. writeEffects w b (f c)) cs)) = []"
  by (induction cs) (simp_all add: writesOn_append writeEffects_def)

lemma writesOn_writes_one:
  "distinct cs \<Longrightarrow> inj_on f (set cs) \<Longrightarrow> c \<in> set cs \<Longrightarrow>
   writesOn (f c) (concat (map (\<lambda>c. writeEffects w b (f c)) cs)) = [b]"
proof (induction cs)
  case Nil
  then show ?case by simp
next
  case (Cons x cs)
  show ?case
  proof (cases "x = c")
    case True
    from Cons.prems have "\<forall>y \<in> set cs. f y \<noteq> f c" using True by (auto simp: inj_on_def)
    from writesOn_writes_none[OF this, of w b] True show ?thesis
      by (simp add: writesOn_append writeEffects_def)
  next
    case False
    with Cons.prems have c: "c \<in> set cs" and ne: "f x \<noteq> f c" by (auto simp: inj_on_def)
    from Cons.prems have "distinct cs" "inj_on f (set cs)" by (simp_all add: inj_on_def)
    from Cons.IH[OF this c] ne show ?thesis
      by (simp add: writesOn_append writeEffects_def)
  qed
qed

lemma connOf_inj:
  assumes "registryInv s" "connOf s c = Some k" "connOf s c' = Some k"
  shows "c = c'"
proof -
  from assms(2) obtain cl where cl: "map_of (clients s) c = Some cl" "conn cl = Some k"
    by (cases "map_of (clients s) c") (simp_all add: connOf_def)
  from assms(3) obtain cl' where cl': "map_of (clients s) c' = Some cl'" "conn cl' = Some k"
    by (cases "map_of (clients s) c'") (simp_all add: connOf_def)
  from assms(1) have "inj_on (\<lambda>e. conn (snd e)) (set (clients s))"
    by (simp add: registryInv_def connsOk_def distinct_map)
  moreover have "conn (snd (c, cl)) = conn (snd (c', cl'))" using cl(2) cl'(2) by simp
  ultimately have "(c, cl) = (c', cl')"
    using map_of_SomeD[OF cl(1)] map_of_SomeD[OF cl'(1)] by (rule inj_onD)
  then show ?thesis by simp
qed

lemma connOf_subscriber:
  "registryInv s \<Longrightarrow> c \<in> set (subsOf s t) \<Longrightarrow> \<exists>k. connOf s c = Some k"
  by (drule (1) registryInv_connOf) (auto simp: connOf_def)

lemma the_connOf_inj:
  assumes "registryInv s"
  shows "inj_on (\<lambda>c. the (connOf s c)) (set (subsOf s t))"
proof (rule inj_onI)
  fix x y assume x: "x \<in> set (subsOf s t)" and y: "y \<in> set (subsOf s t)"
    and e: "the (connOf s x) = the (connOf s y)"
  from connOf_subscriber[OF assms x] obtain k where k: "connOf s x = Some k" by blast
  from connOf_subscriber[OF assms y] obtain k' where k': "connOf s y = Some k'" by blast
  from e k k' have "k = k'" by simp
  with connOf_inj[OF assms k] k' show "x = y" by simp
qed

lemma broadcast_effects:
  assumes i: "registryInv s" and m: "marshal w (msg sm) = Some b"
    and p: "processServerMessage w sm s = Inr s'"
  shows "newEffects s s' = Marshal (msg sm) #
      concat (map (\<lambda>c. writeEffects w b (the (connOf s c))) (subsOf s (topic sm)))"
    and "s' = s\<lparr>out := out s'\<rparr>"
  using processServerMessage_ok[OF i m] p by simp_all

subsection \<open>Broadcast\<close>

text \<open>
  C1. In a state with the registry invariant, a broadcast whose payload marshals does
  not panic, calls \<^verbatim>\<open>json.Marshal\<close> once, on the payload, attempts as many writes as
  the topic has subscribers, writes the marshalled bytes once on the connection of each
  subscribed client and nothing on the connection of a client that is not subscribed.
\<close>

theorem broadcast_delivers_once:
  "(registryInv s \<longrightarrow> processServerMessage w sm s \<noteq> Inl NilPointerDereference)
   \<and> (registryInv s \<and> marshal w (msg sm) = Some b \<and> processServerMessage w sm s = Inr s' \<longrightarrow>
        marshalled (newEffects s s') = [msg sm]
        \<and> length (writeAttempts (newEffects s s')) = length (subsOf s (topic sm))
        \<and> distinct (subsOf s (topic sm))
        \<and> (c \<in> set (subsOf s (topic sm)) \<and> connOf s c = Some k \<longrightarrow>
             writesOn k (newEffects s s') = [b])
        \<and> (c \<notin> set (subsOf s (topic sm)) \<and> connOf s c = Some k \<longrightarrow>
             writesOn k (newEffects s s') = []))"
proof (intro conjI impI)
  assume "registryInv s"
  from processServerMessage_total[OF this, of w sm]
  show "processServerMessage w sm s \<noteq> Inl NilPointerDereference" by auto
next
  assume a: "registryInv s \<and> marshal w (msg sm) = Some b \<and> processServerMessage w sm s = Inr s'"
  then have i: "registryInv s" by simp
  let ?f = "\<lambda>c. the (connOf s c)"
  from a have e: "newEffects s s' = Marshal (msg sm) #
      concat (map (\<lambda>c. writeEffects w b (?f c)) (subsOf s (topic sm)))"
    by (intro broadcast_effects(1)) simp_all
  show "marshalled (newEffects s s') = [msg sm]"
    by (simp add: e marshalled_writes)
  show "length (writeAttempts (newEffects s s')) = length (subsOf s (topic sm))"
    by (simp add: e writeAttempts_writes)
  from i show d: "distinct (subsOf s (topic sm))"
    by (simp add: registryInv_def subsDistinct_subsOf)
  {
    assume "c \<in> set (subsOf s (topic sm)) \<and> connOf s c = Some k"
    then have c: "c \<in> set (subsOf s (topic sm))" and k: "?f c = k" by simp_all
    from writesOn_writes_one[OF d the_connOf_inj[OF i] c, of w b] k
    show "writesOn k (newEffects s s') = [b]" by (simp add: e)
  }
  {
    assume n: "c \<notin> set (subsOf s (topic sm)) \<and> connOf s c = Some k"
    have "\<forall>x \<in> set (subsOf s (topic sm)). ?f x \<noteq> k"
    proof
      fix x assume x: "x \<in> set (subsOf s (topic sm))"
      from connOf_subscriber[OF i x] obtain k' where k': "connOf s x = Some k'" by blast
      show "?f x \<noteq> k"
      proof
        assume "?f x = k"
        with k' have "connOf s x = Some k" by simp
        from connOf_inj[OF i this] n have "x = c" by simp
        with x n show False by simp
      qed
    qed
    from writesOn_writes_none[OF this, of w b]
    show "writesOn k (newEffects s s') = []" by (simp add: e)
  }
qed

theorem broadcast_delivers_once_witness:
  "registryInv sampleState
   \<and> marshal sampleEnv (ForeignV 5) = Some [1, 2]
   \<and> processServerMessage sampleEnv \<lparr>topic = ''bus_button'', msg = ForeignV 5\<rparr> sampleState
       = Inr (sampleState\<lparr>out := [Marshal (ForeignV 5), Write 11 [1, 2], Log Error unableToWrite]\<rparr>)
   \<and> marshalled (newEffects sampleState
        (sampleState\<lparr>out := [Marshal (ForeignV 5), Write 11 [1, 2], Log Error unableToWrite]\<rparr>))
       = [ForeignV 5]
   \<and> ''b'' \<in> set (subsOf sampleState ''bus_button'') \<and> connOf sampleState ''b'' = Some 11
   \<and> writesOn 11 (newEffects sampleState
        (sampleState\<lparr>out := [Marshal (ForeignV 5), Write 11 [1, 2], Log Error unableToWrite]\<rparr>))
       = [[1, 2]]
   \<and> ''a'' \<notin> set (subsOf sampleState ''bus_button'') \<and> connOf sampleState ''a'' = Some 10
   \<and> writesOn 10 (newEffects sampleState
        (sampleState\<lparr>out := [Marshal (ForeignV 5), Write 11 [1, 2], Log Error unableToWrite]\<rparr>))
       = []"
proof -
  let ?sm = "\<lparr>topic = ''bus_button'', msg = ForeignV 5\<rparr> :: nat serverMessage"
  let ?s' = "sampleState\<lparr>out := [Marshal (ForeignV 5), Write 11 [1, 2], Log Error unableToWrite]\<rparr>"
  have i: "registryInv sampleState"
    by (simp add: registryInv_def subsDistinct_def subsRegistered_def connsOk_def sampleState_def
        clientA_def clientB_def clientC_def)
  have m: "marshal sampleEnv (msg ?sm) = Some [1, 2]" by (simp add: sampleEnv_def)
  have p: "processServerMessage sampleEnv ?sm sampleState = Inr ?s'"
    by (simp add: processServerMessage_def sampleEnv_def subsOf_def sampleState_def clientB_def)
  have b: "''b'' \<in> set (subsOf sampleState (topic ?sm)) \<and> connOf sampleState ''b'' = Some 11"
    by (simp add: subsOf_def connOf_def sampleState_def clientB_def)
  have a: "''a'' \<notin> set (subsOf sampleState (topic ?sm)) \<and> connOf sampleState ''a'' = Some 10"
    by (simp add: subsOf_def connOf_def sampleState_def clientA_def)
  note T1 = broadcast_delivers_once [of sampleState sampleEnv ?sm "[1, 2]" ?s' "''b''" 11]
  note T2 = broadcast_delivers_once [of sampleState sampleEnv ?sm "[1, 2]" ?s' "''a''" 10]
  from T1 i m p have c1: "marshalled (newEffects sampleState ?s') = [msg ?sm]" by blast
  from T1 i m p b have c2: "writesOn 11 (newEffects sampleState ?s') = [[1, 2]]" by blast
  from T2 i m p a have c3: "writesOn 10 (newEffects sampleState ?s') = []" by blast
  from i m p c1 b c2 a c3 show ?thesis by simp
qed

text \<open>
  C6. When \<^verbatim>\<open>json.Marshal\<close> fails, the broadcast logs the error and returns with no
  write attempted and no field of the manager changed (in \<^verbatim>\<open>handleMsgBusButton\<close> the
  counter was incremented before the broadcast began). When it succeeds, a write is
  attempted on the connection of every subscriber, in the order of the list, whichever
  of the writes fail.
\<close>

theorem broadcast_failures:
  "(marshal w (msg sm) = None \<longrightarrow>
      processServerMessage w sm s
        = Inr (s\<lparr>out := out s @ [Marshal (msg sm), Log Error unableToMarshal]\<rparr>)
      \<and> writeAttempts [Marshal (msg sm), Log Error unableToMarshal] = [])
   \<and> (marshal w (Envelope ''bus_button'' (BusButtonV fbb)) = None \<longrightarrow>
      handleMsgBusButton w fbb s
        = Inr (s\<lparr>busButtonCount := busButtonCount s + 1,
               out := out s @ [Marshal (Envelope ''bus_button'' (BusButtonV fbb)), Log Error unableToMarshal]\<rparr>))
   \<and> (registryInv s \<and> marshal w (msg sm) = Some b \<and> processServerMessage w sm s = Inr s' \<longrightarrow>
      writeAttempts (newEffects s s') = map (\<lambda>c. the (connOf s c)) (subsOf s (topic sm))
      \<and> s' = s\<lparr>out := out s'\<rparr>)
   \<and> (registryInv s \<and> marshal w (Envelope ''bus_button'' (BusButtonV fbb)) = Some b
        \<and> handleMsgBusButton w fbb s = Inr s' \<longrightarrow>
      writeAttempts (newEffects s s') = map (\<lambda>c. the (connOf s c)) (subsOf s ''bus_button'')
      \<and> s' = s\<lparr>busButtonCount := busButtonCount s + 1, out := out s'\<rparr>)"
proof (intro conjI impI)
  assume "marshal w (msg sm) = None"
  then show "processServerMessage w sm s
        = Inr (s\<lparr>out := out s @ [Marshal (msg sm), Log Error unableToMarshal]\<rparr>)"
    by (rule processServerMessage_fail)
next
  show "writeAttempts [Marshal (msg sm), Log Error unableToMarshal] = []" by simp
next
  assume "marshal w (Envelope ''bus_button'' (BusButtonV fbb)) = None"
  then show "handleMsgBusButton w fbb s
        = Inr (s\<lparr>busButtonCount := busButtonCount s + 1,
               out := out s @ [Marshal (Envelope ''bus_button'' (BusButtonV fbb)), Log Error unableToMarshal]\<rparr>)"
    by (simp add: handleMsgBusButton_def Let_def)
next
  assume a: "registryInv s \<and> marshal w (msg sm) = Some b \<and> processServerMessage w sm s = Inr s'"
  then have e: "newEffects s s' = Marshal (msg sm) #
      concat (map (\<lambda>c. writeEffects w b (the (connOf s c))) (subsOf s (topic sm)))"
    by (intro broadcast_effects(1)) simp_all
  then show "writeAttempts (newEffects s s') = map (\<lambda>c. the (connOf s c)) (subsOf s (topic sm))"
    by (simp add: writeAttempts_writes)
  from a have "registryInv s" "marshal w (msg sm) = Some b" "processServerMessage w sm s = Inr s'"
    by simp_all
  then show "s' = s\<lparr>out := out s'\<rparr>" by (rule broadcast_effects(2))
next
  assume a: "registryInv s \<and> marshal w (Envelope ''bus_button'' (BusButtonV fbb)) = Some b
        \<and> handleMsgBusButton w fbb s = Inr s'"
  let ?s = "s\<lparr>busButtonCount := busButtonCount s + 1\<rparr>"
  let ?sm = "\<lparr>topic = ''bus_button'', msg = Envelope ''bus_button'' (BusButtonV fbb)\<rparr> :: 'a serverMessage"
  from a have i: "registryInv ?s" by (simp add: registryInv_count)
  from a have m: "marshal w (msg ?sm) = Some b" by simp
  from a have p: "processServerMessage w ?sm ?s = Inr s'" by (simp add: handleMsgBusButton_eq)
  from broadcast_effects[OF i m p]
  have e: "newEffects ?s s' = Marshal (msg ?sm) #
      concat (map (\<lambda>c. writeEffects w b (the (connOf ?s c))) (subsOf ?s (topic ?sm)))"
    and f: "s' = ?s\<lparr>out := out s'\<rparr>" by simp_all
  have n: "newEffects s s' = newEffects ?s s'" by (simp add: newEffects_def)
  from e show "writeAttempts (newEffects s s') = map (\<lambda>c. the (connOf s c)) (subsOf s ''bus_button'')"
    by (simp add: n writeAttempts_writes connOf_def subsOf_def)
  from f show "s' = s\<lparr>busButtonCount := busButtonCount s + 1, out := out s'\<rparr>" by simp
qed

theorem broadcast_failures_witness:
  "marshal failingEnv (msg \<lparr>topic = ''eta'', msg = ForeignV (5::nat)\<rparr>) = None
   \<and> processServerMessage failingEnv \<lparr>topic = ''eta'', msg = ForeignV 5\<rparr> sampleState
       = Inr (sampleState\<lparr>out := [Marshal (ForeignV 5), Log Error unableToMarshal]\<rparr>)
   \<and> marshal failingEnv (Envelope ''bus_button'' (BusButtonV sampleButton)) = None
   \<and> handleMsgBusButton failingEnv sampleButton sampleState
       = Inr (sampleState\<lparr>busButtonCount := 1,
           out := [Marshal (Envelope ''bus_button'' (BusButtonV sampleButton)), Log Error unableToMarshal]\<rparr>)
   \<and> registryInv sampleState
   \<and> writeFails sampleEnv 11
   \<and> processServerMessage sampleEnv \<lparr>topic = ''eta'', msg = ForeignV 5\<rparr> sampleState
       = Inr (sampleState\<lparr>out := [Marshal (ForeignV 5), Write 10 [1, 2], Write 11 [1, 2],
            Log Error unableToWrite, Write 12 [1, 2]]\<rparr>)
   \<and> writeAttempts (newEffects sampleState
        (sampleState\<lparr>out := [Marshal (ForeignV 5), Write 10 [1, 2], Write 11 [1, 2],
            Log Error unableToWrite, Write 12 [1, 2]]\<rparr>)) = [10, 11, 12]
   \<and> handleMsgBusButton sampleEnv sampleButton sampleState
       = Inr (sampleState\<lparr>busButtonCount := 1,
           out := [Marshal (Envelope ''bus_button'' (BusButtonV sampleButton)), Write 11 [1, 2],
             Log Error unableToWrite]\<rparr>)
   \<and> writeAttempts (newEffects sampleState
        (sampleState\<lparr>busButtonCount := 1,
           out := [Marshal (Envelope ''bus_button'' (BusButtonV sampleButton)), Write 11 [1, 2],
             Log Error unableToWrite]\<rparr>)) = [11]"
proof -
  let ?sm = "\<lparr>topic = ''eta'', msg = ForeignV 5\<rparr> :: nat serverMessage"
  let ?s1 = "sampleState\<lparr>out := [Marshal (ForeignV 5), Write 10 [1, 2], Write 11 [1, 2],
            Log Error unableToWrite, Write 12 [1, 2]]\<rparr>"
  let ?s2 = "sampleState\<lparr>busButtonCount := 1,
           out := [Marshal (Envelope ''bus_button'' (BusButtonV sampleButton)), Write 11 [1, 2],
             Log Error unableToWrite]\<rparr>"
  have i: "registryInv sampleState"
    by (simp add: registryInv_def subsDistinct_def subsRegistered_def connsOk_def sampleState_def
        clientA_def clientB_def clientC_def)
  have o: "out sampleState = []" "busButtonCount sampleState = 0" by (simp_all add: sampleState_def)
  have f1: "marshal failingEnv (msg ?sm) = None" by (simp add: failingEnv_def)
  have f2: "marshal failingEnv (Envelope ''bus_button'' (BusButtonV sampleButton)) = None"
    by (simp add: failingEnv_def)
  have wf: "writeFails sampleEnv 11" by (simp add: sampleEnv_def)
  have m1: "marshal sampleEnv (msg ?sm) = Some [1, 2]" by (simp add: sampleEnv_def)
  have m2: "marshal sampleEnv (Envelope ''bus_button'' (BusButtonV sampleButton)) = Some [1, 2]"
    by (simp add: sampleEnv_def)
  have p1: "processServerMessage sampleEnv ?sm sampleState = Inr ?s1"
    by (simp add: processServerMessage_def sampleEnv_def subsOf_def sampleState_def
        clientA_def clientB_def clientC_def)
  have p2: "handleMsgBusButton sampleEnv sampleButton sampleState = Inr ?s2"
    by (simp add: handleMsgBusButton_def Let_def sampleEnv_def subsOf_def sampleState_def clientB_def)
  have v1: "map (\<lambda>c. the (connOf sampleState c)) (subsOf sampleState (topic ?sm)) = [10, 11, 12]"
    by (simp add: connOf_def subsOf_def sampleState_def clientA_def clientB_def clientC_def)
  have v2: "map (\<lambda>c. the (connOf sampleState c)) (subsOf sampleState ''bus_button'') = [11]"
    by (simp add: connOf_def subsOf_def sampleState_def clientB_def)
  note T0 = broadcast_failures [of failingEnv ?sm sampleState sampleButton "[1, 2]" ?s1]
  note T1 = broadcast_failures [of sampleEnv ?sm sampleState sampleButton "[1, 2]" ?s1]
  note T2 = broadcast_failures [of sampleEnv ?sm sampleState sampleButton "[1, 2]" ?s2]
  from T0 f1 have c1: "processServerMessage failingEnv ?sm sampleState
      = Inr (sampleState\<lparr>out := out sampleState @ [Marshal (msg ?sm), Log Error unableToMarshal]\<rparr>)"
    by blast
  from T0 f2 have c2: "handleMsgBusButton failingEnv sampleButton sampleState
      = Inr (sampleState\<lparr>busButtonCount := busButtonCount sampleState + 1,
           out := out sampleState @ [Marshal (Envelope ''bus_button'' (BusButtonV sampleButton)),
             Log Error unableToMarshal]\<rparr>)" by blast
  from T1 i m1 p1 have c3: "writeAttempts (newEffects sampleState ?s1)
      = map (\<lambda>c. the (connOf sampleState c)) (subsOf sampleState (topic ?sm))" by blast
  from T2 i m2 p2 have c4: "writeAttempts (newEffects sampleState ?s2)
      = map (\<lambda>c. the (connOf sampleState c)) (subsOf sampleState ''bus_button'')" by blast
  from c1 have c1': "processServerMessage failingEnv ?sm sampleState
      = Inr (sampleState\<lparr>out := [Marshal (ForeignV 5), Log Error unableToMarshal]\<rparr>)"
    by (simp add: o)
  from c2 have c2': "handleMsgBusButton failingEnv sampleButton sampleState
       = Inr (sampleState\<lparr>busButtonCount := 1,
           out := [Marshal (Envelope ''bus_button'' (BusButtonV sampleButton)), Log Error unableToMarshal]\<rparr>)"
    by (simp add: o)
  from c3 v1 have c3': "writeAttempts (newEffects sampleState ?s1) = [10, 11, 12]" by simp
  from c4 v2 have c4': "writeAttempts (newEffects sampleState ?s2) = [11]" by simp
  from f1 c1' f2 c2' i wf p1 c3' p2 c4' show ?thesis by (intro conjI)
qed

lemma writeAll_marshalled:
  "writeAll w b cs s = Inr s' \<Longrightarrow> marshalled (out s') = marshalled (out s)"
proof (induction cs arbitrary: s)
  case Nil
  then show ?case by simp
next
  case (Cons c cs)
  from Cons.prems obtain cl where cl: "map_of (clients s) c = Some cl"
    by (cases "map_of (clients s) c") simp_all
  from Cons.prems cl obtain k where k: "conn cl = Some k"
    by (cases "conn cl") simp_all
  from Cons.prems cl k have "writeAll w b cs (s\<lparr>out := out s @ writeEffects w b k\<rparr>) = Inr s'"
    by (simp add: writeEffects_def)
  from Cons.IH[OF this] show ?case by (simp add: marshalled_append writeEffects_def)
qed

lemma processServerMessage_marshalled:
  assumes "processServerMessage w sm s = Inr s'"
  shows "marshalled (out s') = marshalled (out s) @ [msg sm]"
proof (cases "marshal w (msg sm)")
  case None
  with assms show ?thesis by (auto simp: processServerMessage_def marshalled_append)
next
  case (Some b)
  with assms have "writeAll w b (subsOf s (topic sm)) (s\<lparr>out := out s @ [Marshal (msg sm)]\<rparr>) = Inr s'"
    by (simp add: processServerMessage_def)
  from writeAll_marshalled[OF this] show ?thesis by (simp add: marshalled_append)
qed

lemma step_marshalled:
  assumes "step w e s = Inr s'"
  shows "\<exists>effs. out s' = out s @ effs \<and> marshalled effs = broadcastOf e"
  using assms
proof (cases rule: step_elim)
  case (Add c)
  then show ?thesis by (simp add: processAddClient_def)
next
  case (Remove c)
  then show ?thesis by (simp add: processRemoveClient_others)
next
  case (Sub c t)
  then show ?thesis by (simp add: handleMsgSubscribe_def Let_def)
next
  case (Unsub c t)
  then show ?thesis by (simp add: handleMsgUnsubscribe_eq)
next
  case (Pos c fp)
  then show ?thesis by (simp add: handleMsgPosition_others)
next
  case (Button c fbb effs)
  from Button(2) have "marshalled (out s') = marshalled (out s) @ [Envelope ''bus_button'' (BusButtonV fbb)]"
    using processServerMessage_marshalled[of w "\<lparr>topic = ''bus_button'', msg = Envelope ''bus_button'' (BusButtonV fbb)\<rparr>"
        "s\<lparr>busButtonCount := busButtonCount s + 1\<rparr>" s']
    by (simp add: handleMsgBusButton_eq)
  with Button(1,3) show ?thesis by (simp add: marshalled_append)
next
  case (Other c)
  then show ?thesis by simp
next
  case (Server sm effs)
  from processServerMessage_marshalled[OF Server(2)] Server(1,3) show ?thesis
    by (simp add: marshalled_append)
next
  case Debug
  then show ?thesis by (simp add: processDebug_def assembleDebug_def Let_def split: prod.splits)
next
  case (Stamp c)
  then show ?thesis by (simp add: readerStamp_others)
next
  case (NewFloat v)
  then show ?thesis by (simp add: readerNewFloat_def)
qed

lemma step_busButtonCount:
  assumes "step w e s = Inr s'"
  shows "busButtonCount s' = busButtonCount s + of_nat (length (busButtonsOf e))"
  using assms
proof (cases rule: step_elim)
  case (Add c)
  then show ?thesis by (simp add: processAddClient_def)
next
  case (Remove c)
  then show ?thesis by (simp add: processRemoveClient_others)
next
  case (Sub c t)
  then show ?thesis by (simp add: handleMsgSubscribe_def Let_def)
next
  case (Unsub c t)
  then show ?thesis by (simp add: handleMsgUnsubscribe_eq)
next
  case (Pos c fp)
  then show ?thesis by (simp add: handleMsgPosition_others)
next
  case (Button c fbb effs)
  then show ?thesis by simp
next
  case (Other c)
  then show ?thesis by simp
next
  case (Server sm effs)
  then show ?thesis by simp
next
  case Debug
  then show ?thesis by (simp add: processDebug_others)
next
  case (Stamp c)
  then show ?thesis by (simp add: readerStamp_others)
next
  case (NewFloat v)
  then show ?thesis by (simp add: readerNewFloat_def)
qed

lemma run_marshalled:
  "run evs s = Inr s' \<Longrightarrow>
   (\<exists>effs. out s' = out s @ effs \<and> marshalled effs = concat (map (\<lambda>we. broadcastOf (snd we)) evs))
   \<and> busButtonCount s' = busButtonCount s + of_nat (length (concat (map (\<lambda>we. busButtonsOf (snd we)) evs)))"
proof (induction evs arbitrary: s)
  case Nil
  then show ?case by simp
next
  case (Cons we evs)
  from Cons.prems obtain s1 where s1: "step (fst we) (snd we) s = Inr s1" "run evs s1 = Inr s'"
    by (cases "step (fst we) (snd we) s") simp_all
  from step_marshalled[OF s1(1)] obtain e1 where e1: "out s1 = out s @ e1"
    "marshalled e1 = broadcastOf (snd we)" by blast
  from Cons.IH[OF s1(2)] obtain e2 where e2: "out s' = out s1 @ e2"
    "marshalled e2 = concat (map (\<lambda>we. broadcastOf (snd we)) evs)"
    and n: "busButtonCount s' = busButtonCount s1 + of_nat (length (concat (map (\<lambda>we. busButtonsOf (snd we)) evs)))"
    by blast
  from e1 e2 have "out s' = out s @ (e1 @ e2) \<and>
      marshalled (e1 @ e2) = concat (map (\<lambda>we. broadcastOf (snd we)) (we # evs))"
    by (simp add: marshalled_append)
  then have "\<exists>effs. out s' = out s @ effs \<and>
      marshalled effs = concat (map (\<lambda>we. broadcastOf (snd we)) (we # evs))" by (rule exI)
  moreover from n step_busButtonCount[OF s1(1)]
  have "busButtonCount s' = busButtonCount s
      + of_nat (length (concat (map (\<lambda>we. busButtonsOf (snd we)) (we # evs))))"
    by simp
  ultimately show ?case by simp
qed

subsection \<open>Bus button events\<close>

lemma broadcast_writesOn:
  assumes i: "registryInv s" and m: "marshal w (msg sm) = Some b"
    and p: "processServerMessage w sm s = Inr s'" and k: "connOf s c = Some k"
  shows "writesOn k (newEffects s s') = (if c \<in> set (subsOf s (topic sm)) then [b] else [])"
proof -
  let ?f = "\<lambda>c. the (connOf s c)"
  from broadcast_effects(1)[OF i m p] have e: "newEffects s s' = Marshal (msg sm) #
      concat (map (\<lambda>c. writeEffects w b (?f c)) (subsOf s (topic sm)))" .
  from i have d: "distinct (subsOf s (topic sm))"
    by (simp add: registryInv_def subsDistinct_subsOf)
  show ?thesis
  proof (cases "c \<in> set (subsOf s (topic sm))")
    case True
    from writesOn_writes_one[OF d the_connOf_inj[OF i] True, of w b] k True
    show ?thesis by (simp add: e)
  next
    case False
    have "\<forall>x \<in> set (subsOf s (topic sm)). ?f x \<noteq> k"
    proof
      fix x assume x: "x \<in> set (subsOf s (topic sm))"
      from connOf_subscriber[OF i x] obtain k' where k': "connOf s x = Some k'" by blast
      show "?f x \<noteq> k"
      proof
        assume "?f x = k"
        with k' have "connOf s x = Some k" by simp
        from connOf_inj[OF i this k] x False show False by simp
      qed
    qed
    from writesOn_writes_none[OF this, of w b] False show ?thesis by (simp add: e)
  qed
qed

lemma newEffects_count: "newEffects (s\<lparr>busButtonCount := n\<rparr>) s' = newEffects s s'"
  by (simp add: newEffects_def)

text \<open>
  C5. A bus button event is the increment of the counter followed by the broadcast of
  the envelope around the payload on topic \<open>bus_button\<close>: the step adds one to the
  counter (a 64-bit unsigned integer; as a number it grows by one unless it was at its
  maximum) and marshals that envelope once, and each
  subscriber of the topic gets the bytes once. Along any run the counter grows by the
  number of bus button events and the marshalled values are those of the run's bus
  button events and server messages, in order; three bus button events on a new
  manager leave the counter at 3 with three envelopes marshalled.
\<close>

theorem bus_button_counts_and_broadcasts:
  "handleMsgBusButton w fbb s
     = processServerMessage w \<lparr>topic = ''bus_button'', msg = Envelope ''bus_button'' (BusButtonV fbb)\<rparr>
         (s\<lparr>busButtonCount := busButtonCount s + 1\<rparr>)
   \<and> (step w (ClientMsg c (BusButton fbb)) s = Inr s' \<longrightarrow>
        busButtonCount s' = busButtonCount s + 1
        \<and> marshalled (newEffects s s') = [Envelope ''bus_button'' (BusButtonV fbb)])
   \<and> (step w (ClientMsg c (BusButton fbb)) s = Inr s' \<and> busButtonCount s + 1 \<noteq> 0 \<longrightarrow>
        unat (busButtonCount s') = unat (busButtonCount s) + 1)
   \<and> (registryInv s \<and> marshal w (Envelope ''bus_button'' (BusButtonV fbb)) = Some b
        \<and> step w (ClientMsg c (BusButton fbb)) s = Inr s'
        \<and> c' \<in> set (subsOf s ''bus_button'') \<and> connOf s c' = Some k \<longrightarrow>
        writesOn k (newEffects s s') = [b])
   \<and> (run evs s = Inr s2 \<longrightarrow>
        busButtonCount s2
          = busButtonCount s + of_nat (length (concat (map (\<lambda>we. busButtonsOf (snd we)) evs)))
        \<and> marshalled (newEffects s s2) = concat (map (\<lambda>we. broadcastOf (snd we)) evs))
   \<and> (run [(w1, ClientMsg c1 (BusButton f1)), (w2, ClientMsg c2 (BusButton f2)),
            (w3, ClientMsg c3 (BusButton f3))] newFusionManager = Inr s3 \<longrightarrow>
        busButtonCount s3 = 3
        \<and> marshalled (out s3) = [Envelope ''bus_button'' (BusButtonV f1),
             Envelope ''bus_button'' (BusButtonV f2), Envelope ''bus_button'' (BusButtonV f3)])"
proof (intro conjI impI)
  show "handleMsgBusButton w fbb s
     = processServerMessage w \<lparr>topic = ''bus_button'', msg = Envelope ''bus_button'' (BusButtonV fbb)\<rparr>
         (s\<lparr>busButtonCount := busButtonCount s + 1\<rparr>)"
    by (rule handleMsgBusButton_eq)
next
  assume st: "step w (ClientMsg c (BusButton fbb)) s = Inr s'"
  from step_busButtonCount[OF st] show "busButtonCount s' = busButtonCount s + 1" by simp
  from step_marshalled[OF st] show
    "marshalled (newEffects s s') = [Envelope ''bus_button'' (BusButtonV fbb)]"
    by (auto simp: newEffects_def)
next
  assume a: "step w (ClientMsg c (BusButton fbb)) s = Inr s' \<and> busButtonCount s + 1 \<noteq> 0"
  then have st: "step w (ClientMsg c (BusButton fbb)) s = Inr s'" by simp
  from a have "1 + busButtonCount s \<noteq> 0" by (simp add: add.commute)
  from unatSuc[OF this] step_busButtonCount[OF st]
  show "unat (busButtonCount s') = unat (busButtonCount s) + 1" by (simp add: add.commute)
next
  assume a: "registryInv s \<and> marshal w (Envelope ''bus_button'' (BusButtonV fbb)) = Some b
        \<and> step w (ClientMsg c (BusButton fbb)) s = Inr s'
        \<and> c' \<in> set (subsOf s ''bus_button'') \<and> connOf s c' = Some k"
  let ?s = "s\<lparr>busButtonCount := busButtonCount s + 1\<rparr>"
  let ?sm = "\<lparr>topic = ''bus_button'', msg = Envelope ''bus_button'' (BusButtonV fbb)\<rparr> :: 'a serverMessage"
  from a have i: "registryInv ?s" by (simp add: registryInv_count)
  from a have m: "marshal w (msg ?sm) = Some b" by simp
  from a have p: "processServerMessage w ?sm ?s = Inr s'"
    by (simp add: step_def processMessage_def handleMsgBusButton_eq)
  from a have k: "connOf ?s c' = Some k" by (simp add: connOf_def)
  from a have c: "c' \<in> set (subsOf ?s (topic ?sm))" by (simp add: subsOf_def)
  from broadcast_writesOn[OF i m p k] c show "writesOn k (newEffects s s') = [b]"
    by (simp add: newEffects_count)
next
  assume r: "run evs s = Inr s2"
  from run_marshalled[OF r] show "busButtonCount s2
          = busButtonCount s + of_nat (length (concat (map (\<lambda>we. busButtonsOf (snd we)) evs)))"
    by blast
  from run_marshalled[OF r] show
    "marshalled (newEffects s s2) = concat (map (\<lambda>we. broadcastOf (snd we)) evs)"
    by (auto simp: newEffects_def)
next
  assume r: "run [(w1, ClientMsg c1 (BusButton f1)), (w2, ClientMsg c2 (BusButton f2)),
            (w3, ClientMsg c3 (BusButton f3))] newFusionManager = Inr s3"
  from run_marshalled[OF r] show "busButtonCount s3 = 3"
    by (simp add: newFusionManager_def)
  from run_marshalled[OF r] show "marshalled (out s3) = [Envelope ''bus_button'' (BusButtonV f1),
             Envelope ''bus_button'' (BusButtonV f2), Envelope ''bus_button'' (BusButtonV f3)]"
    by (auto simp: newFusionManager_def)
qed


theorem bus_button_counts_and_broadcasts_witness:
  "step sampleEnv (ClientMsg ''a'' (BusButton sampleButton)) sampleState
     = Inr (sampleState\<lparr>busButtonCount := 1,
           out := [Marshal (Envelope ''bus_button'' (BusButtonV sampleButton)), Write 11 [1, 2],
             Log Error unableToWrite]\<rparr>)
   \<and> busButtonCount sampleState + 1 \<noteq> 0
   \<and> unat (busButtonCount (sampleState\<lparr>busButtonCount := 1,
           out := [Marshal (Envelope ''bus_button'' (BusButtonV sampleButton)), Write 11 [1, 2],
             Log Error unableToWrite]\<rparr>)) = unat (busButtonCount sampleState) + 1
   \<and> registryInv sampleState
   \<and> marshal sampleEnv (Envelope ''bus_button'' (BusButtonV sampleButton)) = Some [1, 2]
   \<and> ''b'' \<in> set (subsOf sampleState ''bus_button'') \<and> connOf sampleState ''b'' = Some 11
   \<and> writesOn 11 (newEffects sampleState (sampleState\<lparr>busButtonCount := 1,
           out := [Marshal (Envelope ''bus_button'' (BusButtonV sampleButton)), Write 11 [1, 2],
             Log Error unableToWrite]\<rparr>)) = [[1, 2]]
   \<and> run [(sampleEnv, ClientMsg ''a'' (BusButton sampleButton)),
           (failingEnv, ServerMsg \<lparr>topic = ''eta'', msg = ForeignV 5\<rparr>)] sampleState
     = Inr (sampleState\<lparr>busButtonCount := 1,
           out := [Marshal (Envelope ''bus_button'' (BusButtonV sampleButton)), Write 11 [1, 2],
             Log Error unableToWrite, Marshal (ForeignV 5), Log Error unableToMarshal]\<rparr>)
   \<and> marshalled (newEffects sampleState (sampleState\<lparr>busButtonCount := 1,
           out := [Marshal (Envelope ''bus_button'' (BusButtonV sampleButton)), Write 11 [1, 2],
             Log Error unableToWrite, Marshal (ForeignV 5), Log Error unableToMarshal]\<rparr>))
     = [Envelope ''bus_button'' (BusButtonV sampleButton), ForeignV 5]
   \<and> run [(sampleEnv, ClientMsg ''a'' (BusButton sampleButton)),
           (sampleEnv, ClientMsg ''b'' (BusButton sampleButton)),
           (failingEnv, ClientMsg ''c'' (BusButton sampleButton))] newFusionManager
     = Inr (newFusionManager\<lparr>busButtonCount := 3,
           out := [Marshal (Envelope ''bus_button'' (BusButtonV sampleButton)),
                   Marshal (Envelope ''bus_button'' (BusButtonV sampleButton)),
                   Marshal (Envelope ''bus_button'' (BusButtonV sampleButton)),
                   Log Error unableToMarshal]\<rparr>)
   \<and> busButtonCount (newFusionManager\<lparr>busButtonCount := 3,
           out := [Marshal (Envelope ''bus_button'' (BusButtonV sampleButton)),
                   Marshal (Envelope ''bus_button'' (BusButtonV sampleButton)),
                   Marshal (Envelope ''bus_button'' (BusButtonV sampleButton)),
                   Log Error unableToMarshal :: nat effect]\<rparr>) = 3"
proof -
  let ?E = "Envelope ''bus_button'' (BusButtonV sampleButton) :: nat go_value"
  let ?s1 = "sampleState\<lparr>busButtonCount := 1,
      out := [Marshal ?E, Write 11 [1, 2], Log Error unableToWrite]\<rparr>"
  let ?evs = "[(sampleEnv, ClientMsg ''a'' (BusButton sampleButton)),
      (failingEnv, ServerMsg \<lparr>topic = ''eta'', msg = ForeignV 5\<rparr>)]"
  let ?s2 = "sampleState\<lparr>busButtonCount := 1,
      out := [Marshal ?E, Write 11 [1, 2], Log Error unableToWrite, Marshal (ForeignV 5),
        Log Error unableToMarshal]\<rparr>"
  let ?s3 = "newFusionManager\<lparr>busButtonCount := 3,
      out := [Marshal ?E, Marshal ?E, Marshal ?E, Log Error unableToMarshal]\<rparr> :: nat fusionManager"
  have i: "registryInv sampleState"
    by (simp add: registryInv_def subsDistinct_def subsRegistered_def connsOk_def sampleState_def
        clientA_def clientB_def clientC_def)
  have m: "marshal sampleEnv ?E = Some [1, 2]" by (simp add: sampleEnv_def)
  have st: "step sampleEnv (ClientMsg ''a'' (BusButton sampleButton)) sampleState = Inr ?s1"
    by (simp add: step_def processMessage_def handleMsgBusButton_def Let_def sampleEnv_def
        subsOf_def sampleState_def clientB_def)
  have b: "''b'' \<in> set (subsOf sampleState ''bus_button'') \<and> connOf sampleState ''b'' = Some 11"
    by (simp add: subsOf_def connOf_def sampleState_def clientB_def)
  have r2: "run ?evs sampleState = Inr ?s2"
    by (simp add: step_def processMessage_def handleMsgBusButton_def processServerMessage_def
        Let_def sampleEnv_def failingEnv_def subsOf_def sampleState_def clientB_def)
  have r3: "run [(sampleEnv, ClientMsg ''a'' (BusButton sampleButton)),
           (sampleEnv, ClientMsg ''b'' (BusButton sampleButton)),
           (failingEnv, ClientMsg ''c'' (BusButton sampleButton))] newFusionManager = Inr ?s3"
    by (simp add: step_def processMessage_def handleMsgBusButton_def Let_def sampleEnv_def
        failingEnv_def subsOf_def newFusionManager_def)
  note T = bus_button_counts_and_broadcasts [of sampleEnv sampleButton sampleState "''a''" ?s1
      "[1, 2]" "''b''" 11 ?evs ?s2 sampleEnv "''a''" sampleButton sampleEnv "''b''" sampleButton
      failingEnv "''c''" sampleButton ?s3]
  have nz: "busButtonCount sampleState + 1 \<noteq> 0" by (simp add: sampleState_def)
  from T st nz have c0: "unat (busButtonCount ?s1) = unat (busButtonCount sampleState) + 1" by blast
  from T i m st b have c1: "writesOn 11 (newEffects sampleState ?s1) = [[1, 2]]" by blast
  from T r2 have c2: "marshalled (newEffects sampleState ?s2)
      = concat (map (\<lambda>we. broadcastOf (snd we)) ?evs)" by blast
  then have c2': "marshalled (newEffects sampleState ?s2) = [?E, ForeignV 5]" by simp
  from T r3 have c3: "busButtonCount ?s3 = 3" by blast
  from st nz c0 i m b c1 r2 c2' r3 c3 show ?thesis by (intro conjI) simp_all
qed

subsection \<open>Deregistration\<close>

lemma processRemoveClient_registryInv: "registryInv s \<Longrightarrow> registryInv (processRemoveClient c s)"
  by (rule step_registryInv[where e="RemoveClient c"]) (simp_all add: admissible_def step_def)

lemma processRemoveClient_connOf:
  "c' \<noteq> c \<Longrightarrow> connOf (processRemoveClient c s) c' = connOf s c'"
  by (simp add: connOf_def processRemoveClient_others)

text \<open>
  C3. In a state with the registry invariant, deregistering a client deletes its
  registry entry and its entry in every subscriber list; a list that does not hold the
  client is left as it is; the handler logs nothing and the step returns normally; and a
  broadcast in the resulting state, to any topic, does not panic and writes nothing on
  the connection that the client had.
\<close>

theorem deregister_removes_client:
  "registryInv s \<longrightarrow>
     map_of (clients (processRemoveClient clientID s)) clientID = None
     \<and> clientID \<notin> set (subsOf (processRemoveClient clientID s) t)
     \<and> subsOf (processRemoveClient clientID s) t = remove1 clientID (subsOf s t)
     \<and> (clientID \<notin> set (subsOf s t) \<longrightarrow> subsOf (processRemoveClient clientID s) t = subsOf s t)
     \<and> out (processRemoveClient clientID s) = out s
     \<and> step w (RemoveClient clientID) s = Inr (processRemoveClient clientID s)
     \<and> processServerMessage w sm (processRemoveClient clientID s) \<noteq> Inl NilPointerDereference
     \<and> (connOf s clientID = Some k \<and> processServerMessage w sm (processRemoveClient clientID s) = Inr s'
          \<longrightarrow> writesOn k (newEffects (processRemoveClient clientID s) s') = [])"
proof
  assume i: "registryInv s"
  let ?s = "processRemoveClient clientID s"
  from i have ks: "distinct (map fst (subscriptions s))" and d: "subsDistinct s"
    by (simp_all add: registryInv_def)
  have i': "registryInv ?s" by (rule processRemoveClient_registryInv[OF i])
  have sub: "subsOf ?s t = remove1 clientID (subsOf s t)" for t
    by (rule processRemoveClient_subsOf[OF ks])
  have notin: "clientID \<notin> set (subsOf ?s t)" for t
    using subsDistinct_subsOf[OF d, of t] by (simp add: sub)
  have c1: "map_of (clients ?s) clientID = None"
    by (simp add: processRemoveClient_others delete_conv')
  have c4: "clientID \<notin> set (subsOf s t) \<longrightarrow> subsOf ?s t = subsOf s t"
    by (simp add: sub remove1_idem)
  have c5: "out ?s = out s" by (simp add: processRemoveClient_others)
  have c6: "step w (RemoveClient clientID) s = Inr ?s" by (simp add: step_def)
  have c7: "processServerMessage w sm ?s \<noteq> Inl NilPointerDereference"
    using processServerMessage_total[OF i', of w sm] by auto
  have c8: "connOf s clientID = Some k \<and> processServerMessage w sm ?s = Inr s'
          \<longrightarrow> writesOn k (newEffects ?s s') = []"
  proof
    assume a: "connOf s clientID = Some k \<and> processServerMessage w sm ?s = Inr s'"
    show "writesOn k (newEffects ?s s') = []"
    proof (cases "marshal w (msg sm)")
      case None
      from processServerMessage_fail[OF None, of ?s] a
      have "s' = ?s\<lparr>out := out ?s @ [Marshal (msg sm), Log Error unableToMarshal]\<rparr>" by simp
      then show ?thesis by simp
    next
      case (Some b)
      from a have p: "processServerMessage w sm ?s = Inr s'" by simp
      have "\<forall>x \<in> set (subsOf ?s (topic sm)). the (connOf ?s x) \<noteq> k"
      proof
        fix x assume x: "x \<in> set (subsOf ?s (topic sm))"
        with notin have ne: "x \<noteq> clientID" by auto
        from connOf_subscriber[OF i' x] obtain k' where k': "connOf ?s x = Some k'" by blast
        with ne have "connOf s x = Some k'" by (simp add: processRemoveClient_connOf)
        with connOf_inj[OF i this, of clientID] a ne have "k' \<noteq> k" by auto
        with k' show "the (connOf ?s x) \<noteq> k" by simp
      qed
      from writesOn_writes_none[OF this, of w b] broadcast_effects(1)[OF i' Some p]
      show ?thesis by simp
    qed
  qed
  from c1 notin sub c4 c5 c6 c7 c8
  show "map_of (clients ?s) clientID = None
     \<and> clientID \<notin> set (subsOf ?s t)
     \<and> subsOf ?s t = remove1 clientID (subsOf s t)
     \<and> (clientID \<notin> set (subsOf s t) \<longrightarrow> subsOf ?s t = subsOf s t)
     \<and> out ?s = out s
     \<and> step w (RemoveClient clientID) s = Inr ?s
     \<and> processServerMessage w sm ?s \<noteq> Inl NilPointerDereference
     \<and> (connOf s clientID = Some k \<and> processServerMessage w sm ?s = Inr s'
          \<longrightarrow> writesOn k (newEffects ?s s') = [])"
    by (intro conjI)
qed

theorem deregister_removes_client_witness:
  "registryInv sampleState
   \<and> processRemoveClient ''b'' sampleState
       = sampleState\<lparr>subscriptions := [(''eta'', [''a'', ''c'']), (''bus_button'', [])],
           clients := [(''a'', clientA), (''c'', clientC)]\<rparr>
   \<and> map_of (clients (processRemoveClient ''b'' sampleState)) ''b'' = None
   \<and> ''b'' \<notin> set (subsOf (processRemoveClient ''b'' sampleState) ''eta'')
   \<and> ''z'' \<notin> set (subsOf sampleState ''eta'')
   \<and> subsOf (processRemoveClient ''z'' sampleState) ''eta'' = subsOf sampleState ''eta''
   \<and> connOf sampleState ''b'' = Some 11
   \<and> processServerMessage sampleEnv \<lparr>topic = ''eta'', msg = ForeignV 5\<rparr> (processRemoveClient ''b'' sampleState)
       = Inr (processRemoveClient ''b'' sampleState
            \<lparr>out := [Marshal (ForeignV 5), Write 10 [1, 2], Write 12 [1, 2]]\<rparr>)
   \<and> writesOn 11 (newEffects (processRemoveClient ''b'' sampleState)
        (processRemoveClient ''b'' sampleState
            \<lparr>out := [Marshal (ForeignV 5), Write 10 [1, 2], Write 12 [1, 2]]\<rparr>)) = []"
proof -
  let ?sm = "\<lparr>topic = ''eta'', msg = ForeignV 5\<rparr> :: nat serverMessage"
  let ?s = "processRemoveClient ''b'' sampleState"
  let ?s' = "?s\<lparr>out := [Marshal (ForeignV 5), Write 10 [1, 2], Write 12 [1, 2]]\<rparr>"
  have i: "registryInv sampleState"
    by (simp add: registryInv_def subsDistinct_def subsRegistered_def connsOk_def sampleState_def
        clientA_def clientB_def clientC_def)
  have e: "?s = sampleState\<lparr>subscriptions := [(''eta'', [''a'', ''c'']), (''bus_button'', [])],
           clients := [(''a'', clientA), (''c'', clientC)]\<rparr>"
    by (simp add: processRemoveClient_def sampleState_def deleteAt_def)
  have z: "''z'' \<notin> set (subsOf sampleState ''eta'')" by (simp add: subsOf_def sampleState_def)
  have k: "connOf sampleState ''b'' = Some 11" by (simp add: connOf_def sampleState_def clientB_def)
  have p: "processServerMessage sampleEnv ?sm ?s = Inr ?s'"
    unfolding e
    by (simp add: processServerMessage_def sampleEnv_def subsOf_def sampleState_def
        clientA_def clientC_def)
  note T1 = deregister_removes_client [of sampleState "''b''" "''eta''" sampleEnv ?sm 11 ?s']
  note T2 = deregister_removes_client [of sampleState "''z''" "''eta''" sampleEnv ?sm 11 ?s']
  from T1 i have c1: "map_of (clients ?s) ''b'' = None" by blast
  from T1 i have c2: "''b'' \<notin> set (subsOf ?s ''eta'')" by blast
  from T2 i z have c3: "subsOf (processRemoveClient ''z'' sampleState) ''eta'' = subsOf sampleState ''eta''"
    by blast
  from T1 i k p have c4: "writesOn 11 (newEffects ?s ?s') = []" by blast
  from i e c1 c2 z c3 k p c4 show ?thesis by (intro conjI)
qed

subsection \<open>Slices in the store\<close>

lemma elems_nil [simp]: "elems h nilSlice = []"
  by (simp add: elems_def nilSlice_def)

lemma appendPos_elems:
  assumes "appendPos k h sl x = (h', sl')"
    and "len sl \<le> cap sl" and "cap sl = 0 \<or> (arr sl < length h \<and> cap sl \<le> length (h ! arr sl))"
  shows "elems h' sl' = elems h sl @ [x]"
proof (cases "len sl < cap sl")
  case True
  with assms(3) have b: "arr sl < length h" "len sl < length (h ! arr sl)" by auto
  from True assms(1) have e: "h' = h[arr sl := (h ! arr sl)[len sl := x]]" "sl' = sl\<lparr>len := len sl + 1\<rparr>"
    by (simp_all add: appendPos_def)
  from b show ?thesis
    by (simp add: e elems_def take_Suc_conv_app_nth)
next
  case False
  define old where "old = elems h sl"
  from False assms(1) have e: "h' = h @ [old @ x # replicate k zeroPosition]"
    "sl' = \<lparr>arr = length h, len = len sl + 1, cap = len sl + 1 + k\<rparr>"
    by (simp_all add: appendPos_def old_def)
  from False assms(2,3) have "length old = len sl"
    by (auto simp: elems_def old_def)
  then have "elems h' sl' = old @ [x]" by (simp add: e elems_def)
  then show ?thesis by (simp add: old_def)
qed

lemma appendPos_valid:
  assumes "appendPos k h sl x = (h', sl')"
    and "len sl \<le> cap sl" and "cap sl = 0 \<or> (arr sl < length h \<and> cap sl \<le> length (h ! arr sl))"
  shows "arr sl' < length h' \<and> len sl' \<le> cap sl' \<and> cap sl' \<le> length (h' ! arr sl')"
proof (cases "len sl < cap sl")
  case True
  with assms(3) have b: "arr sl < length h" "cap sl \<le> length (h ! arr sl)" by auto
  from True assms(1) have e: "h' = h[arr sl := (h ! arr sl)[len sl := x]]" "sl' = sl\<lparr>len := len sl + 1\<rparr>"
    by (simp_all add: appendPos_def)
  from b True show ?thesis by (simp add: e)
next
  case False
  with assms(1) have e: "h' = h @ [elems h sl @ x # replicate k zeroPosition]"
    "sl' = \<lparr>arr = length h, len = len sl + 1, cap = len sl + 1 + k\<rparr>"
    by (simp_all add: appendPos_def)
  from False assms(2,3) have "length (elems h sl) = len sl"
    by (auto simp: elems_def)
  then show ?thesis by (simp add: e)
qed

lemma appendPos_frame:
  assumes "appendPos k h sl x = (h', sl')"
  shows "length h \<le> length h'"
    and "a < length h \<Longrightarrow> a \<noteq> arr sl \<or> cap sl = 0 \<Longrightarrow> h' ! a = h ! a"
    and "(arr sl' = arr sl \<and> 0 < cap sl) \<or> arr sl' = length h"
proof -
  show "length h \<le> length h'" using assms by (auto simp: appendPos_def split: if_splits)
  show "a < length h \<Longrightarrow> a \<noteq> arr sl \<or> cap sl = 0 \<Longrightarrow> h' ! a = h ! a"
    using assms by (auto simp: appendPos_def nth_append split: if_splits)
  show "(arr sl' = arr sl \<and> 0 < cap sl) \<or> arr sl' = length h"
    using assms by (auto simp: appendPos_def split: if_splits)
qed

lemma key_notin: "k \<notin> fst ` set al \<Longrightarrow> \<forall>e \<in> set al. fst e \<noteq> k"
  by (metis image_eqI)

lemma set_update_distinct:
  "distinct (map fst al) \<Longrightarrow> set (AList.update k v al) = insert (k, v) {e \<in> set al. fst e \<noteq> k}"
proof (induction al)
  case Nil
  then show ?case by simp
next
  case (Cons p al)
  show ?case
  proof (cases "fst p = k")
    case True
    with Cons.prems have "k \<notin> fst ` set al" by simp
    then have n: "\<forall>e \<in> set al. fst e \<noteq> k" by (rule key_notin)
    from True have u: "AList.update k v (p # al) = (k, v) # al" by simp
    from n have "{e \<in> set (p # al). fst e \<noteq> k} = set al" using True by auto
    with u show ?thesis by simp
  next
    case False
    from Cons have ih: "set (AList.update k v al) = insert (k, v) {e \<in> set al. fst e \<noteq> k}"
      by simp
    from False have u: "AList.update k v (p # al) = p # AList.update k v al" by simp
    from False have "{e \<in> set (p # al). fst e \<noteq> k} = insert p {e \<in> set al. fst e \<noteq> k}"
      by auto
    with u ih show ?thesis by auto
  qed
qed

lemma distinct_update_proj:
  assumes "distinct (map fst al)" "distinct (map g al)"
    "\<forall>e \<in> set al. fst e \<noteq> k \<longrightarrow> g e \<noteq> g (k, v)"
  shows "distinct (map g (AList.update k v al))"
  using assms
proof (induction al)
  case Nil
  then show ?case by simp
next
  case (Cons p al)
  show ?case
  proof (cases "fst p = k")
    case True
    with Cons.prems have "k \<notin> fst ` set al" by simp
    then have "\<forall>e \<in> set al. fst e \<noteq> k" by (rule key_notin)
    with Cons.prems True show ?thesis by auto
  next
    case False
    from Cons.prems have ih: "distinct (map g (AList.update k v al))"
      by (intro Cons.IH) auto
    have "g p \<notin> g ` set (AList.update k v al)"
    proof
      assume "g p \<in> g ` set (AList.update k v al)"
      then obtain e where e: "e \<in> set (AList.update k v al)" "g p = g e" by auto
      with set_update_subset[of k v al] have "e = (k, v) \<or> e \<in> set al" by auto
      with e Cons.prems False show False by auto
    qed
    with ih False show ?thesis by simp
  qed
qed

subsection \<open>Appending a position\<close>

lemma trackSlice_cases:
  obtains "map_of (tracks s) t = None" "trackSlice s t = nilSlice"
  | sl where "map_of (tracks s) t = Some sl" "trackSlice s t = sl" "(t, sl) \<in> set (tracks s)"
proof (cases "map_of (tracks s) t")
  case None
  with that(1) show ?thesis by (simp add: trackSlice_def)
next
  case (Some sl)
  from that(2)[OF Some _ map_of_SomeD[OF Some]] Some show ?thesis by (simp add: trackSlice_def)
qed

lemma storeOk_entry:
  "storeOk s \<Longrightarrow> (t, sl) \<in> set (tracks s) \<Longrightarrow>
   arr sl < length (store s) \<and> len sl \<le> cap sl \<and> cap sl \<le> length (store s ! arr sl)"
  unfolding storeOk_def by fastforce

lemma storeOk_arr_inj:
  assumes "storeOk s" "(t, sl) \<in> set (tracks s)" "(t', sl') \<in> set (tracks s)" "t \<noteq> t'"
  shows "arr sl \<noteq> arr sl'"
proof
  assume e: "arr sl = arr sl'"
  from assms(1) have "inj_on (\<lambda>e. arr (snd e)) (set (tracks s))"
    by (simp add: storeOk_def distinct_map)
  moreover have "arr (snd (t, sl)) = arr (snd (t', sl'))" using e by simp
  ultimately have "(t, sl) = (t', sl')" using assms(2,3) by (rule inj_onD)
  with assms(4) show False by simp
qed

lemma storeOk_slice_valid:
  assumes "storeOk s"
  shows "len (trackSlice s t) \<le> cap (trackSlice s t)"
    and "cap (trackSlice s t) = 0 \<or> (arr (trackSlice s t) < length (store s)
          \<and> cap (trackSlice s t) \<le> length (store s ! arr (trackSlice s t)))"
proof -
  show "len (trackSlice s t) \<le> cap (trackSlice s t)"
  proof (cases rule: trackSlice_cases[of s t])
    case 1
    then show ?thesis by (simp add: nilSlice_def)
  next
    case (2 sl)
    with storeOk_entry[OF assms 2(3)] show ?thesis by simp
  qed
  show "cap (trackSlice s t) = 0 \<or> (arr (trackSlice s t) < length (store s)
          \<and> cap (trackSlice s t) \<le> length (store s ! arr (trackSlice s t)))"
  proof (cases rule: trackSlice_cases[of s t])
    case 1
    then show ?thesis by (simp add: nilSlice_def)
  next
    case (2 sl)
    with storeOk_entry[OF assms 2(3)] show ?thesis by simp
  qed
qed

lemma handleMsgPosition_unfold:
  obtains h' sl' where
    "appendPos (slack w) (store s) (trackSlice s (Track fp)) (fp\<lparr>Time := now w\<rparr>) = (h', sl')"
    "handleMsgPosition w fp s = s\<lparr>tracks := AList.update (Track fp) sl' (tracks s), store := h'\<rparr>"
proof -
  obtain h' sl' where a: "appendPos (slack w) (store s) (trackSlice s (Track fp)) (fp\<lparr>Time := now w\<rparr>) = (h', sl')"
    by (cases "appendPos (slack w) (store s) (trackSlice s (Track fp)) (fp\<lparr>Time := now w\<rparr>)")
  then have "handleMsgPosition w fp s = s\<lparr>tracks := AList.update (Track fp) sl' (tracks s), store := h'\<rparr>"
    by (simp add: handleMsgPosition_def Let_def)
  with a that show ?thesis by blast
qed

lemma handleMsgPosition_trackOf_same:
  assumes "storeOk s"
  shows "trackOf (handleMsgPosition w fp s) (Track fp) = trackOf s (Track fp) @ [fp\<lparr>Time := now w\<rparr>]"
proof -
  obtain h' sl' where a:
    "appendPos (slack w) (store s) (trackSlice s (Track fp)) (fp\<lparr>Time := now w\<rparr>) = (h', sl')"
    and e: "handleMsgPosition w fp s = s\<lparr>tracks := AList.update (Track fp) sl' (tracks s), store := h'\<rparr>"
    by (rule handleMsgPosition_unfold)
  from appendPos_elems[OF a storeOk_slice_valid[OF assms]]
  have "elems h' sl' = elems (store s) (trackSlice s (Track fp)) @ [fp\<lparr>Time := now w\<rparr>]" .
  then show ?thesis by (simp add: e trackOf_def trackSlice_def update_conv')
qed

lemma handleMsgPosition_trackOf_other:
  assumes "storeOk s" "t \<noteq> Track fp"
  shows "trackOf (handleMsgPosition w fp s) t = trackOf s t"
proof -
  obtain h' sl' where a:
    "appendPos (slack w) (store s) (trackSlice s (Track fp)) (fp\<lparr>Time := now w\<rparr>) = (h', sl')"
    and e: "handleMsgPosition w fp s = s\<lparr>tracks := AList.update (Track fp) sl' (tracks s), store := h'\<rparr>"
    by (rule handleMsgPosition_unfold)
  from assms(2) have ts: "trackSlice (handleMsgPosition w fp s) t = trackSlice s t"
    by (simp add: e trackSlice_def update_conv')
  show ?thesis
  proof (cases rule: trackSlice_cases[of s t])
    case 1
    with ts show ?thesis by (simp add: trackOf_def)
  next
    case (2 sl2)
    from storeOk_entry[OF assms(1) 2(3)] have b: "arr sl2 < length (store s)" by simp
    have "arr sl2 \<noteq> arr (trackSlice s (Track fp)) \<or> cap (trackSlice s (Track fp)) = 0"
    proof (cases rule: trackSlice_cases[of s "Track fp"])
      case 1
      then show ?thesis by (simp add: nilSlice_def)
    next
      case (2 sl)
      from storeOk_arr_inj[OF assms(1) \<open>(t, sl2) \<in> set (tracks s)\<close> 2(3) assms(2)] 2(2)
      show ?thesis by simp
    qed
    from appendPos_frame(2)[OF a b this] have "h' ! arr sl2 = store s ! arr sl2" .
    with ts 2 show ?thesis by (simp add: trackOf_def elems_def e)
  qed
qed

lemma handleMsgPosition_frame:
  assumes "a < length (store s)" "a \<notin> liveArrs s"
  shows "store (handleMsgPosition w fp s) ! a = store s ! a"
    and "a < length (store (handleMsgPosition w fp s))"
    and "a \<notin> liveArrs (handleMsgPosition w fp s)"
proof -
  obtain h' sl' where ap:
    "appendPos (slack w) (store s) (trackSlice s (Track fp)) (fp\<lparr>Time := now w\<rparr>) = (h', sl')"
    and e: "handleMsgPosition w fp s = s\<lparr>tracks := AList.update (Track fp) sl' (tracks s), store := h'\<rparr>"
    by (rule handleMsgPosition_unfold)
  have live: "cap (trackSlice s (Track fp)) = 0 \<or> arr (trackSlice s (Track fp)) \<in> liveArrs s"
  proof (cases rule: trackSlice_cases[of s "Track fp"])
    case 1
    then show ?thesis by (simp add: nilSlice_def)
  next
    case (2 sl)
    from 2(3) have "arr (snd (Track fp, sl)) \<in> (\<lambda>e. arr (snd e)) ` set (tracks s)"
      by (rule imageI)
    with 2(2) show ?thesis by (simp add: liveArrs_def)
  qed
  with assms(2) have ne: "a \<noteq> arr (trackSlice s (Track fp)) \<or> cap (trackSlice s (Track fp)) = 0"
    by auto
  from appendPos_frame(2)[OF ap assms(1) ne] show "store (handleMsgPosition w fp s) ! a = store s ! a"
    by (simp add: e)
  from appendPos_frame(1)[OF ap] assms(1) show "a < length (store (handleMsgPosition w fp s))"
    by (simp add: e)
  from appendPos_frame(3)[OF ap] live assms have n: "a \<noteq> arr sl'" by auto
  have "liveArrs (handleMsgPosition w fp s) \<subseteq> insert (arr sl') (liveArrs s)"
    using set_update_subset[of "Track fp" sl' "tracks s"] by (auto simp: e liveArrs_def)
  with n assms(2) show "a \<notin> liveArrs (handleMsgPosition w fp s)" by auto
qed

lemma handleMsgPosition_storeOk:
  assumes "storeOk s"
  shows "storeOk (handleMsgPosition w fp s)"
proof -
  let ?t = "Track fp"
  obtain h' sl' where ap:
    "appendPos (slack w) (store s) (trackSlice s ?t) (fp\<lparr>Time := now w\<rparr>) = (h', sl')"
    and e: "handleMsgPosition w fp s = s\<lparr>tracks := AList.update ?t sl' (tracks s), store := h'\<rparr>"
    by (rule handleMsgPosition_unfold)
  from assms have dk: "distinct (map fst (tracks s))" and da: "distinct (map (\<lambda>e. arr (snd e)) (tracks s))"
    by (simp_all add: storeOk_def)
  note v = appendPos_valid[OF ap storeOk_slice_valid[OF assms]]
  have other: "arr (snd e) \<noteq> arr sl' \<and> arr (snd e) < length (store s)
      \<and> h' ! arr (snd e) = store s ! arr (snd e)"
    if m: "e \<in> set (tracks s)" and k: "fst e \<noteq> ?t" for e
  proof -
    from m have m': "(fst e, snd e) \<in> set (tracks s)" by simp
    from storeOk_entry[OF assms m'] have b: "arr (snd e) < length (store s)" by simp
    have ne: "arr (snd e) \<noteq> arr (trackSlice s ?t) \<or> cap (trackSlice s ?t) = 0"
    proof (cases rule: trackSlice_cases[of s ?t])
      case 1
      then show ?thesis by (simp add: nilSlice_def)
    next
      case (2 sl)
      from storeOk_arr_inj[OF assms m' 2(3) k] 2(2) show ?thesis by simp
    qed
    from appendPos_frame(3)[OF ap] ne b have "arr (snd e) \<noteq> arr sl'" by auto
    with b appendPos_frame(2)[OF ap b ne] show ?thesis by simp
  qed
  have c1: "distinct (map fst (AList.update ?t sl' (tracks s)))" using dk by (rule distinct_update)
  have c2: "distinct (map (\<lambda>e. arr (snd e)) (AList.update ?t sl' (tracks s)))"
    using dk da
  proof (rule distinct_update_proj)
    show "\<forall>e \<in> set (tracks s). fst e \<noteq> ?t \<longrightarrow> arr (snd e) \<noteq> arr (snd (?t, sl'))"
      using other by simp
  qed
  have c3: "\<forall>e \<in> set (AList.update ?t sl' (tracks s)).
      arr (snd e) < length h' \<and> len (snd e) \<le> cap (snd e) \<and> cap (snd e) \<le> length (h' ! arr (snd e))"
  proof
    fix e assume "e \<in> set (AList.update ?t sl' (tracks s))"
    with set_update_distinct[OF dk, of ?t sl'] have "e = (?t, sl') \<or> (e \<in> set (tracks s) \<and> fst e \<noteq> ?t)"
      by auto
    then show "arr (snd e) < length h' \<and> len (snd e) \<le> cap (snd e) \<and> cap (snd e) \<le> length (h' ! arr (snd e))"
    proof
      assume "e = (?t, sl')"
      with v show ?thesis by simp
    next
      assume o: "e \<in> set (tracks s) \<and> fst e \<noteq> ?t"
      then have "(fst e, snd e) \<in> set (tracks s)" by simp
      from storeOk_entry[OF assms this] other[of e] o appendPos_frame(1)[OF ap]
      show ?thesis by simp
    qed
  qed
  from c1 c2 c3 show ?thesis by (simp add: e storeOk_def)
qed

subsection \<open>The snapshot copies and the frame of a step\<close>

lemma copySlice_fresh:
  assumes "arr v < length h"
  shows "copySlice (h @ [replicate (len v) zeroPosition]) \<lparr>arr = length h, len = len v, cap = len v\<rparr> v
     = h @ [elems h v]"
proof -
  have "drop (len v) (replicate (len v) zeroPosition) = []" by simp
  with assms show ?thesis by (simp add: copySlice_def elems_def nth_append)
qed

lemma elems_append: "arr v < length h \<Longrightarrow> elems (h @ r) v = elems h v"
  by (simp add: elems_def nth_append)

lemma copyTracks_eq:
  "\<forall>v \<in> set vs. arr v < length h \<Longrightarrow>
   copyTracks vs h acc = (h @ map (elems h) vs, acc @ snapSlices (length h) vs)"
proof (induction vs arbitrary: h acc)
  case Nil
  then show ?case by simp
next
  case (Cons v vs)
  from Cons.prems have v: "arr v < length h" by simp
  let ?h2 = "h @ [elems h v]"
  let ?new = "\<lparr>arr = length h, len = len v, cap = len v\<rparr>"
  have "\<forall>x \<in> set vs. arr x < length ?h2" using Cons.prems by auto
  from Cons.IH[OF this, of "acc @ [?new]"]
  have ih: "copyTracks vs ?h2 (acc @ [?new])
      = (?h2 @ map (elems ?h2) vs, (acc @ [?new]) @ snapSlices (length ?h2) vs)" .
  have "map (elems ?h2) vs = map (elems h) vs"
    using Cons.prems by (intro map_cong) (simp_all add: elems_append)
  with ih have "copyTracks vs ?h2 (acc @ [?new])
      = (h @ map (elems h) (v # vs), acc @ snapSlices (length h) (v # vs))" by simp
  with copySlice_fresh[OF v] show ?case by (simp add: makeSlice_def)
qed



lemma set_rangeTracks [simp]: "set (rangeTracks w s) = set (tracks s)"
  by (simp add: rangeTracks_def)

lemma length_rangeTracks [simp]: "length (rangeTracks w s) = length (tracks s)"
  by (simp add: rangeTracks_def)

lemma set_rangeClients [simp]: "set (rangeClients w s) = set (clients s)"
  by (simp add: rangeClients_def)

lemma length_rangeClients [simp]: "length (rangeClients w s) = length (clients s)"
  by (simp add: rangeClients_def)

lemma storeOk_arrs:
  "storeOk s \<Longrightarrow> \<forall>v \<in> set (map snd (rangeTracks w s)). arr v < length (store s)"
  unfolding storeOk_def by auto

lemma assembleDebug_eq:
  assumes "storeOk s"
  shows "assembleDebug w s =
     (store s @ map (elems (store s)) (map snd (rangeTracks w s)),
      \<lparr>clients_d = map (\<lambda>e. newClient (snd e)) (rangeClients w s),
       tracks_d = snapSlices (length (store s)) (map snd (rangeTracks w s)),
       busButtonCount_d = busButtonCount s\<rparr>)"
  using copyTracks_eq[OF storeOk_arrs[OF assms], of w "[]"]
  by (simp add: assembleDebug_def)

lemma processDebug_eq:
  assumes "storeOk s"
  shows "processDebug w s = s\<lparr>store := store s @ map (elems (store s)) (map snd (rangeTracks w s)),
      out := out s @ [Reply (snapshotOf w s)]\<rparr>"
  by (simp add: processDebug_def snapshotOf_def assembleDebug_eq[OF assms])

lemma trackOf_store_append:
  assumes "storeOk s"
  shows "trackOf (s\<lparr>store := store s @ r, out := x\<rparr>) t = trackOf s t"
proof (cases rule: trackSlice_cases[of s t])
  case 1
  then show ?thesis by (simp add: trackOf_def trackSlice_def)
next
  case (2 sl)
  from storeOk_entry[OF assms 2(3)] have "arr sl < length (store s)" by simp
  with 2 show ?thesis by (simp add: trackOf_def trackSlice_def elems_append)
qed

lemma storeOk_store_append:
  assumes "storeOk s"
  shows "storeOk (s\<lparr>store := store s @ r, out := x\<rparr>)"
proof -
  have "\<forall>e \<in> set (tracks s). arr (snd e) < length (store s @ r) \<and> len (snd e) \<le> cap (snd e)
      \<and> cap (snd e) \<le> length ((store s @ r) ! arr (snd e))"
  proof
    fix e assume "e \<in> set (tracks s)"
    then have "(fst e, snd e) \<in> set (tracks s)" by simp
    from storeOk_entry[OF assms this] show "arr (snd e) < length (store s @ r) \<and> len (snd e) \<le> cap (snd e)
      \<and> cap (snd e) \<le> length ((store s @ r) ! arr (snd e))" by (simp add: nth_append)
  qed
  with assms show ?thesis by (simp add: storeOk_def)
qed

lemma step_tracks_store:
  assumes "step w e s = Inr s'" "\<forall>c fp. e \<noteq> ClientMsg c (Position fp)" "e \<noteq> DebugRequest"
  shows "tracks s' = tracks s \<and> store s' = store s"
  using assms(1)
proof (cases rule: step_elim)
  case (Add c)
  then show ?thesis by (simp add: processAddClient_def)
next
  case (Remove c)
  then show ?thesis by (simp add: processRemoveClient_others)
next
  case (Sub c t)
  then show ?thesis by (simp add: handleMsgSubscribe_def Let_def)
next
  case (Unsub c t)
  then show ?thesis by (simp add: handleMsgUnsubscribe_eq)
next
  case (Pos c fp)
  with assms(2) show ?thesis by simp
next
  case (Button c fbb effs)
  then show ?thesis by simp
next
  case (Other c)
  then show ?thesis by simp
next
  case (Server sm effs)
  then show ?thesis by simp
next
  case Debug
  with assms(3) show ?thesis by simp
next
  case (Stamp c)
  then show ?thesis by (simp add: readerStamp_others)
next
  case (NewFloat v)
  then show ?thesis by (simp add: readerNewFloat_def)
qed

lemma stampedFor_other:
  "\<forall>c fp. e \<noteq> ClientMsg c (Position fp) \<Longrightarrow> stampedFor t (w, e) = []"
  by (cases "(t, (w, e))" rule: stampedFor.cases) simp_all

lemma step_store:
  assumes ok: "storeOk s" and st: "step w e s = Inr s'"
  shows "storeOk s'"
    and "trackOf s' t = trackOf s t @ stampedFor t (w, e)"
    and "a < length (store s) \<Longrightarrow> a \<notin> liveArrs s \<Longrightarrow>
         store s' ! a = store s ! a \<and> a < length (store s') \<and> a \<notin> liveArrs s'"
proof -
  consider (pos) c fp where "e = ClientMsg c (Position fp)" | (debug) "e = DebugRequest"
    | (other) "\<forall>c fp. e \<noteq> ClientMsg c (Position fp)" "e \<noteq> DebugRequest" by blast
  then have "storeOk s' \<and> trackOf s' t = trackOf s t @ stampedFor t (w, e)
     \<and> (a < length (store s) \<longrightarrow> a \<notin> liveArrs s \<longrightarrow>
         store s' ! a = store s ! a \<and> a < length (store s') \<and> a \<notin> liveArrs s')"
  proof cases
    case pos
    with st have e: "s' = handleMsgPosition w fp s" by (simp add: step_def processMessage_def)
    have "trackOf s' t = trackOf s t @ stampedFor t (w, e)"
    proof (cases "t = Track fp")
      case True
      with handleMsgPosition_trackOf_same[OF ok, of w fp] pos e show ?thesis by simp
    next
      case False
      with handleMsgPosition_trackOf_other[OF ok False, of w] pos e show ?thesis by simp
    qed
    with handleMsgPosition_storeOk[OF ok, of w fp] handleMsgPosition_frame[of a s w fp] e
    show ?thesis by simp
  next
    case debug
    with st have e: "s' = processDebug w s" by (simp add: step_def)
    let ?r = "map (elems (store s)) (map snd (rangeTracks w s))"
    from processDebug_eq[OF ok] e have e': "s' = s\<lparr>store := store s @ ?r, out := out s @ [Reply (snapshotOf w s)]\<rparr>"
      by simp
    have "liveArrs s' = liveArrs s" by (simp add: e' liveArrs_def)
    with storeOk_store_append[OF ok, where r="?r"] trackOf_store_append[OF ok, where r="?r" and t=t] debug e'
    show ?thesis by (simp add: nth_append)
  next
    case other
    from step_tracks_store[OF st other] have ts: "tracks s' = tracks s" "store s' = store s"
      by simp_all
    then have "storeOk s' = storeOk s" "trackOf s' t = trackOf s t" "liveArrs s' = liveArrs s"
      by (simp_all add: storeOk_def trackOf_def trackSlice_def liveArrs_def)
    with ok ts stampedFor_other[OF other(1)] show ?thesis by simp
  qed
  then show "storeOk s'"
    and "trackOf s' t = trackOf s t @ stampedFor t (w, e)"
    and "a < length (store s) \<Longrightarrow> a \<notin> liveArrs s \<Longrightarrow>
         store s' ! a = store s ! a \<and> a < length (store s') \<and> a \<notin> liveArrs s'"
    by simp_all
qed

lemma run_store:
  "storeOk s \<Longrightarrow> run evs s = Inr s' \<Longrightarrow>
   storeOk s' \<and> trackOf s' t = trackOf s t @ concat (map (stampedFor t) evs)
   \<and> (\<forall>a. a < length (store s) \<longrightarrow> a \<notin> liveArrs s \<longrightarrow> store s' ! a = store s ! a)"
proof (induction evs arbitrary: s)
  case Nil
  then show ?case by simp
next
  case (Cons we evs)
  from Cons.prems(2) obtain s1 where s1: "step (fst we) (snd we) s = Inr s1" "run evs s1 = Inr s'"
    by (cases "step (fst we) (snd we) s") simp_all
  note st = step_store[OF Cons.prems(1) s1(1)]
  from Cons.IH[OF st(1) s1(2)] have ih: "storeOk s'"
    "trackOf s' t = trackOf s1 t @ concat (map (stampedFor t) evs)"
    "\<forall>a. a < length (store s1) \<longrightarrow> a \<notin> liveArrs s1 \<longrightarrow> store s' ! a = store s1 ! a"
    by simp_all
  have "\<forall>a. a < length (store s) \<longrightarrow> a \<notin> liveArrs s \<longrightarrow> store s' ! a = store s ! a"
  proof (intro allI impI)
    fix a assume a: "a < length (store s)" "a \<notin> liveArrs s"
    from st(3)[OF a] ih(3) show "store s' ! a = store s ! a" by simp
  qed
  moreover from st(2)[of t] have "trackOf s1 t = trackOf s t @ stampedFor t we" by simp
  ultimately show ?case using ih by simp
qed

subsection \<open>Positions and tracks\<close>

lemma handleMsgPosition_time: "handleMsgPosition w (fp\<lparr>Time := t0\<rparr>) s = handleMsgPosition w fp s"
  by (simp add: handleMsgPosition_def)

lemma newFusionManager_storeOk: "storeOk newFusionManager"
  by (simp add: storeOk_def newFusionManager_def)

lemma newFusionManager_trackOf: "trackOf newFusionManager t = []"
  by (simp add: trackOf_def trackSlice_def newFusionManager_def)

lemma stampedFor_positionEvents:
  "\<forall>x \<in> set xs. Track (snd (snd x)) = t \<Longrightarrow>
   concat (map (stampedFor t) (positionEvents xs)) = stamped xs"
  by (induction xs) (simp_all add: positionEvents_def stamped_def)

lemma run_positionEvents: "run (positionEvents xs) s \<noteq> Inl NilPointerDereference"
  by (induction xs arbitrary: s) (simp_all add: positionEvents_def step_def processMessage_def)

text \<open>
  C4. The handler stores a position with the time read from the clock, whatever time
  the decoded payload carries (the reader has overwritten it once already), at the end
  of the track named by the payload, and leaves the other tracks as they are; a track
  that is not in the map yet is created with this one position. A run of N position
  events for one track returns normally and extends the track by the N positions in the
  order of the events, each with the clock reading of its step, which is non-zero when
  the clock reading is; from the new manager the track is exactly these positions.
\<close>

theorem position_appends_to_track:
  "handleMsgPosition w (fp\<lparr>Time := t0\<rparr>) s = handleMsgPosition w fp s
   \<and> handleClientPosition t1 c (Some fp) = Inr (ClientMsg c (Position (fp\<lparr>Time := t1\<rparr>)))
   \<and> step w (ClientMsg c (Position (fp\<lparr>Time := t1\<rparr>))) s = Inr (handleMsgPosition w fp s)
   \<and> (storeOk s \<longrightarrow>
        trackOf (handleMsgPosition w fp s) (Track fp) = trackOf s (Track fp) @ [fp\<lparr>Time := now w\<rparr>]
        \<and> (t \<noteq> Track fp \<longrightarrow> trackOf (handleMsgPosition w fp s) t = trackOf s t)
        \<and> storeOk (handleMsgPosition w fp s)
        \<and> (map_of (tracks s) (Track fp) = None \<longrightarrow>
             map_of (tracks (handleMsgPosition w fp s)) (Track fp) \<noteq> None
             \<and> trackOf (handleMsgPosition w fp s) (Track fp) = [fp\<lparr>Time := now w\<rparr>]))
   \<and> (storeOk s \<and> (\<forall>x \<in> set xs. Track (snd (snd x)) = t) \<longrightarrow>
        run (positionEvents xs) s \<noteq> Inl NilPointerDereference
        \<and> (run (positionEvents xs) s = Inr s' \<longrightarrow>
             trackOf s' t = trackOf s t @ stamped xs
             \<and> length (trackOf s' t) = length (trackOf s t) + length xs
             \<and> ((\<forall>x \<in> set xs. now (fst x) \<noteq> 0) \<longrightarrow> (\<forall>p \<in> set (stamped xs). Time p \<noteq> 0))))
   \<and> (run evs newFusionManager = Inr s2 \<longrightarrow> trackOf s2 t = concat (map (stampedFor t) evs))"
proof (intro conjI impI)
  show "handleMsgPosition w (fp\<lparr>Time := t0\<rparr>) s = handleMsgPosition w fp s"
    by (rule handleMsgPosition_time)
  show "handleClientPosition t1 c (Some fp) = Inr (ClientMsg c (Position (fp\<lparr>Time := t1\<rparr>)))"
    by (simp add: handleClientPosition_def)
  show "step w (ClientMsg c (Position (fp\<lparr>Time := t1\<rparr>))) s = Inr (handleMsgPosition w fp s)"
    by (simp add: step_def processMessage_def handleMsgPosition_time)
next
  assume ok: "storeOk s"
  show same: "trackOf (handleMsgPosition w fp s) (Track fp) = trackOf s (Track fp) @ [fp\<lparr>Time := now w\<rparr>]"
    by (rule handleMsgPosition_trackOf_same[OF ok])
  show "storeOk (handleMsgPosition w fp s)" by (rule handleMsgPosition_storeOk[OF ok])
  {
    assume "t \<noteq> Track fp"
    with ok show "trackOf (handleMsgPosition w fp s) t = trackOf s t"
      by (rule handleMsgPosition_trackOf_other)
  }
  {
    assume n: "map_of (tracks s) (Track fp) = None"
    obtain h' sl' where
      e: "handleMsgPosition w fp s = s\<lparr>tracks := AList.update (Track fp) sl' (tracks s), store := h'\<rparr>"
      by (rule handleMsgPosition_unfold)
    show "map_of (tracks (handleMsgPosition w fp s)) (Track fp) \<noteq> None"
      by (simp add: e update_conv')
    from n have "trackOf s (Track fp) = []" by (simp add: trackOf_def trackSlice_def)
    with same show "trackOf (handleMsgPosition w fp s) (Track fp) = [fp\<lparr>Time := now w\<rparr>]" by simp
  }
next
  show "run (positionEvents xs) s \<noteq> Inl NilPointerDereference" by (rule run_positionEvents)
next
  assume a: "storeOk s \<and> (\<forall>x \<in> set xs. Track (snd (snd x)) = t)"
    and r: "run (positionEvents xs) s = Inr s'"
  from a have ok: "storeOk s" and tr: "\<forall>x \<in> set xs. Track (snd (snd x)) = t" by simp_all
  from run_store[OF ok r, of t] stampedFor_positionEvents[OF tr]
  show e: "trackOf s' t = trackOf s t @ stamped xs" by simp
  then show "length (trackOf s' t) = length (trackOf s t) + length xs" by (simp add: stamped_def)
next
  assume "\<forall>x \<in> set xs. now (fst x) \<noteq> 0"
  then show "\<forall>p \<in> set (stamped xs). Time p \<noteq> 0" by (auto simp: stamped_def)
next
  assume r: "run evs newFusionManager = Inr s2"
  from run_store[OF newFusionManager_storeOk r, of t]
  show "trackOf s2 t = concat (map (stampedFor t) evs)" by (simp add: newFusionManager_trackOf)
qed

theorem position_appends_to_track_witness:
  "storeOk (newFusionManager :: nat fusionManager)
   \<and> map_of (tracks (newFusionManager :: nat fusionManager)) (Track samplePosition) = None
   \<and> trackOf (handleMsgPosition sampleEnv samplePosition newFusionManager) ''t1''
       = [samplePosition\<lparr>Time := 1000\<rparr>]
   \<and> ''t2'' \<noteq> Track samplePosition
   \<and> trackOf (handleMsgPosition sampleEnv samplePosition newFusionManager) ''t2'' = []
   \<and> map (\<lambda>x. (Track (snd (snd x)), now (fst x)))
         [(sampleEnv, ''a'', samplePosition), (laterEnv, ''b'', samplePosition\<lparr>Latitude := 7\<rparr>),
          (laterEnv, ''a'', samplePosition\<lparr>Latitude := 8\<rparr>)]
       = [(''t1'', 1000), (''t1'', 2000), (''t1'', 2000)]
   \<and> run (positionEvents [(sampleEnv, ''a'', samplePosition), (laterEnv, ''b'', samplePosition\<lparr>Latitude := 7\<rparr>),
                   (laterEnv, ''a'', samplePosition\<lparr>Latitude := 8\<rparr>)]) newFusionManager
       = Inr (newFusionManager\<lparr>tracks := [(''t1'', \<lparr>arr = 1, len = 3, cap = 3\<rparr>)],
            store := [[samplePosition\<lparr>Time := 1000\<rparr>, samplePosition\<lparr>Latitude := 7, Time := 2000\<rparr>],
                      [samplePosition\<lparr>Time := 1000\<rparr>, samplePosition\<lparr>Latitude := 7, Time := 2000\<rparr>,
                       samplePosition\<lparr>Latitude := 8, Time := 2000\<rparr>]]\<rparr>)
   \<and> trackOf (newFusionManager\<lparr>tracks := [(''t1'', \<lparr>arr = 1, len = 3, cap = 3\<rparr>)],
            store := [[samplePosition\<lparr>Time := 1000\<rparr>, samplePosition\<lparr>Latitude := 7, Time := 2000\<rparr>],
                      [samplePosition\<lparr>Time := 1000\<rparr>, samplePosition\<lparr>Latitude := 7, Time := 2000\<rparr>,
                       samplePosition\<lparr>Latitude := 8, Time := 2000\<rparr>]]\<rparr> :: nat fusionManager) ''t1''
       = [samplePosition\<lparr>Time := 1000\<rparr>, samplePosition\<lparr>Latitude := 7, Time := 2000\<rparr>,
          samplePosition\<lparr>Latitude := 8, Time := 2000\<rparr>]
   \<and> list_all (\<lambda>p. Time p \<noteq> 0)
         (stamped [(sampleEnv, ''a'', samplePosition), (laterEnv, ''b'', samplePosition\<lparr>Latitude := 7\<rparr>),
                   (laterEnv, ''a'', samplePosition\<lparr>Latitude := 8\<rparr>)])"
proof -
  let ?n = "newFusionManager :: nat fusionManager"
  let ?xs = "[(sampleEnv, ''a'', samplePosition), (laterEnv, ''b'', samplePosition\<lparr>Latitude := 7\<rparr>),
                   (laterEnv, ''a'', samplePosition\<lparr>Latitude := 8\<rparr>)]"
  let ?s' = "newFusionManager\<lparr>tracks := [(''t1'', \<lparr>arr = 1, len = 3, cap = 3\<rparr>)],
            store := [[samplePosition\<lparr>Time := 1000\<rparr>, samplePosition\<lparr>Latitude := 7, Time := 2000\<rparr>],
                      [samplePosition\<lparr>Time := 1000\<rparr>, samplePosition\<lparr>Latitude := 7, Time := 2000\<rparr>,
                       samplePosition\<lparr>Latitude := 8, Time := 2000\<rparr>]]\<rparr> :: nat fusionManager"
  have ok: "storeOk ?n" by (simp add: storeOk_def newFusionManager_def)
  have n: "map_of (tracks ?n) (Track samplePosition) = None" by (simp add: newFusionManager_def)
  have t1: "Track samplePosition = ''t1''" by (simp add: samplePosition_def)
  have t2: "''t2'' \<noteq> Track samplePosition" by (simp add: samplePosition_def)
  have nw: "now sampleEnv = 1000" "now laterEnv = 2000" by (simp_all add: sampleEnv_def laterEnv_def)
  have h: "\<forall>x \<in> set ?xs. Track (snd (snd x)) = ''t1''" by (simp add: samplePosition_def)
  have h0: "\<forall>x \<in> set ?xs. now (fst x) \<noteq> 0" by (simp add: nw)
  have r: "run (positionEvents ?xs) ?n = Inr ?s'"
    by (simp add: positionEvents_def step_def processMessage_def handleMsgPosition_def Let_def
        appendPos_def trackSlice_def nilSlice_def elems_def newFusionManager_def
        sampleEnv_def laterEnv_def samplePosition_def zeroPosition_def)
  have tn: "trackOf ?n ''t1'' = []" "trackOf ?n ''t2'' = []"
    by (simp_all add: trackOf_def trackSlice_def newFusionManager_def)
  note T1 = position_appends_to_track [where w=sampleEnv and fp=samplePosition and s="?n" and c="''a''"
      and t="''t2''" and xs="?xs" and s'="?s'" and evs="[]" and ?s2.0="?n"]
  note T2 = position_appends_to_track [where w=sampleEnv and fp=samplePosition and s="?n" and c="''a''"
      and t="''t1''" and xs="?xs" and s'="?s'" and evs="[]" and ?s2.0="?n"]
  from T1 ok n have c1: "trackOf (handleMsgPosition sampleEnv samplePosition ?n) (Track samplePosition)
      = [samplePosition\<lparr>Time := now sampleEnv\<rparr>]" by blast
  from T1 ok t2 have c2: "trackOf (handleMsgPosition sampleEnv samplePosition ?n) ''t2'' = trackOf ?n ''t2''"
    by blast
  from T2 ok h r have c3: "trackOf ?s' ''t1'' = trackOf ?n ''t1'' @ stamped ?xs" by blast
  from T2 ok h r h0 have c4: "\<forall>p \<in> set (stamped ?xs). Time p \<noteq> 0" by blast
  from c1 have c1': "trackOf (handleMsgPosition sampleEnv samplePosition ?n) ''t1''
      = [samplePosition\<lparr>Time := 1000\<rparr>]" by (simp add: t1 nw)
  from c2 have c2': "trackOf (handleMsgPosition sampleEnv samplePosition ?n) ''t2'' = []"
    by (simp add: tn)
  from c3 have c3': "trackOf ?s' ''t1'' = [samplePosition\<lparr>Time := 1000\<rparr>,
      samplePosition\<lparr>Latitude := 7, Time := 2000\<rparr>, samplePosition\<lparr>Latitude := 8, Time := 2000\<rparr>]"
    by (simp add: tn stamped_def nw)
  have hh: "map (\<lambda>x. (Track (snd (snd x)), now (fst x))) ?xs
      = [(''t1'', 1000), (''t1'', 2000), (''t1'', 2000)]" by (simp add: nw samplePosition_def)
  from c4 have c4': "list_all (\<lambda>p. Time p \<noteq> 0) (stamped ?xs)" by (simp add: list_all_iff)
  from ok n c1' t2 c2' hh r c3' c4' show ?thesis by (intro conjI)
qed

subsection \<open>The snapshot\<close>










subsection \<open>Float cells\<close>










subsection \<open>Pointers of stored positions\<close>











subsection \<open>The snapshot and what it shares with the state\<close>





end
